theory Spec2Isabelle
  imports Complex_Main
begin

section \<open>JavaScript strings\<close>

text \<open>
  A JavaScript string is a sequence of UTF-16 code units. A code unit is modelled as a
  natural number and a string as a list of them, so that \<open>length\<close> is the
  \<^verbatim>\<open>.length\<close> of the source and every input text the server can receive is a
  value of the type. String literals of the source are written \<open>js ''...''\<close>.
\<close>

type_synonym jsstring = "nat list"

definition js :: "string \<Rightarrow> jsstring" where
  "js s = map of_char s"

text \<open>
  The character classes of the regular expressions of \<^verbatim>\<open>server.js\<close>:
  \<^verbatim>\<open>\s\<close> (white space and line terminators, the same set that
  \<^verbatim>\<open>trim\<close> strips), \<^verbatim>\<open>\w\<close>, \<^verbatim>\<open>\d\<close> and the dot, which matches
  every code unit but a line terminator.
\<close>

definition is_space :: "nat \<Rightarrow> bool" where
  "is_space c \<longleftrightarrow>
     (9 \<le> c \<and> c \<le> 13) \<or> c = 32 \<or> c = 160 \<or> c = 5760 \<or> (8192 \<le> c \<and> c \<le> 8202) \<or>
     c = 8232 \<or> c = 8233 \<or> c = 8239 \<or> c = 8287 \<or> c = 12288 \<or> c = 65279"

definition is_digit :: "nat \<Rightarrow> bool" where
  "is_digit c \<longleftrightarrow> 48 \<le> c \<and> c \<le> 57"

definition is_word :: "nat \<Rightarrow> bool" where
  "is_word c \<longleftrightarrow> (97 \<le> c \<and> c \<le> 122) \<or> (65 \<le> c \<and> c \<le> 90) \<or> is_digit c \<or> c = 95"

definition is_line_terminator :: "nat \<Rightarrow> bool" where
  "is_line_terminator c \<longleftrightarrow> c = 10 \<or> c = 13 \<or> c = 8232 \<or> c = 8233"

definition trimStart :: "jsstring \<Rightarrow> jsstring" where
  "trimStart s = dropWhile is_space s"

definition trimEnd :: "jsstring \<Rightarrow> jsstring" where
  "trimEnd s = rev (dropWhile is_space (rev s))"

definition trim :: "jsstring \<Rightarrow> jsstring" where
  "trim s = trimEnd (trimStart s)"

definition startsWith :: "jsstring \<Rightarrow> jsstring \<Rightarrow> bool" where
  "startsWith s p \<longleftrightarrow> take (length p) s = p"

text \<open>\<^verbatim>\<open>s.split("\n")\<close>: the pieces between line feeds; the empty text has one empty piece.\<close>

fun split_nl :: "jsstring \<Rightarrow> jsstring \<Rightarrow> jsstring list" where
  "split_nl acc [] = [rev acc]"
| "split_nl acc (c # cs) = (if c = 10 then rev acc # split_nl [] cs else split_nl (c # acc) cs)"

definition split_lines :: "jsstring \<Rightarrow> jsstring list" where
  "split_lines s = split_nl [] s"

text \<open>\<^verbatim>\<open>parts.join(sep)\<close>.\<close>

fun join :: "jsstring \<Rightarrow> jsstring list \<Rightarrow> jsstring" where
  "join sep [] = []"
| "join sep [x] = x"
| "join sep (x # y # ys) = x @ sep @ join sep (y # ys)"

section \<open>Regular expressions\<close>

text \<open>
  The regular expressions of the source are sequences of atoms: anchors, the word
  boundary, literal text, one character of a class, a greedy quantifier over one
  character of a class, and capture groups, which are never nested and are written as
  an opening and a closing marker. \<open>Alt a b\<close> is the alternative of two literals
  (\<^verbatim>\<open>yes|no\<close>).
\<close>

datatype cls = Wd | Sp | Dg | Dot | Ch nat

fun in_cls :: "cls \<Rightarrow> nat \<Rightarrow> bool" where
  "in_cls Wd c = is_word c"
| "in_cls Sp c = is_space c"
| "in_cls Dg c = is_digit c"
| "in_cls Dot c = (\<not> is_line_terminator c)"
| "in_cls (Ch d) c = (c = d)"

datatype atom =
    Bol | Eol | WB | GOpen | GClose
  | One cls | Opt cls | Star cls | Plus cls
  | Str jsstring | Alt jsstring jsstring

type_synonym regex = "atom list"

text \<open>
  \<^verbatim>\<open>\b\<close> holds between the previous and the next code unit when exactly one of
  them is a word character; the ends of the text count as non-word.
\<close>

definition word_boundary :: "nat option \<Rightarrow> jsstring \<Rightarrow> bool" where
  "word_boundary p s \<longleftrightarrow>
     (case p of None \<Rightarrow> False | Some c \<Rightarrow> is_word c) \<noteq> (case s of [] \<Rightarrow> False | c # _ \<Rightarrow> is_word c)"

definition after :: "nat option \<Rightarrow> jsstring \<Rightarrow> nat option" where
  "after p k = (if k = [] then p else Some (last k))"

definition cons_first :: "nat \<Rightarrow> jsstring list option \<Rightarrow> jsstring list option" where
  "cons_first x r = (case r of Some (seg # segs) \<Rightarrow> Some ((x # seg) # segs) | _ \<Rightarrow> None)"

definition skip :: "jsstring list option \<Rightarrow> jsstring list option" where
  "skip r = map_option ((#) []) r"

definition orelse :: "'a option \<Rightarrow> 'a option \<Rightarrow> 'a option" where
  "orelse a b = (case a of Some x \<Rightarrow> Some x | None \<Rightarrow> b)"

text \<open>
  The backtracking matcher. \<open>rmatch r p s\<close> matches the atoms \<open>r\<close> at the front of
  \<open>s\<close>, where \<open>p\<close> is the code unit before \<open>s\<close> (\<open>None\<close> at the start of the
  text), and returns the text each atom consumed, for the first match in the order a
  backtracking engine tries them: a quantifier takes as many characters as it can and
  gives them back one at a time while the rest of the expression fails.
\<close>

fun rmatch :: "regex \<Rightarrow> nat option \<Rightarrow> jsstring \<Rightarrow> jsstring list option" where
  "rmatch [] p s = Some []"
| "rmatch (Bol # r) p s = (if p = None then skip (rmatch r p s) else None)"
| "rmatch (Eol # r) p s = (if s = [] then skip (rmatch r p s) else None)"
| "rmatch (WB # r) p s = (if word_boundary p s then skip (rmatch r p s) else None)"
| "rmatch (GOpen # r) p s = skip (rmatch r p s)"
| "rmatch (GClose # r) p s = skip (rmatch r p s)"
| "rmatch (One c # r) p [] = None"
| "rmatch (One c # r) p (x # xs) =
     (if in_cls c x then cons_first x (skip (rmatch r (Some x) xs)) else None)"
| "rmatch (Opt c # r) p [] = skip (rmatch r p [])"
| "rmatch (Opt c # r) p (x # xs) =
     (if in_cls c x
      then orelse (cons_first x (skip (rmatch r (Some x) xs))) (skip (rmatch r p (x # xs)))
      else skip (rmatch r p (x # xs)))"
| "rmatch (Star c # r) p [] = skip (rmatch r p [])"
| "rmatch (Star c # r) p (x # xs) =
     (if in_cls c x
      then orelse (cons_first x (rmatch (Star c # r) (Some x) xs)) (skip (rmatch r p (x # xs)))
      else skip (rmatch r p (x # xs)))"
| "rmatch (Plus c # r) p [] = None"
| "rmatch (Plus c # r) p (x # xs) =
     (if in_cls c x then cons_first x (rmatch (Star c # r) (Some x) xs) else None)"
| "rmatch (Str k # r) p s =
     (if startsWith s k then map_option ((#) k) (rmatch r (after p k) (drop (length k) s)) else None)"
| "rmatch (Alt a b # r) p s =
     orelse
       (if startsWith s a then map_option ((#) a) (rmatch r (after p a) (drop (length a) s)) else None)
       (if startsWith s b then map_option ((#) b) (rmatch r (after p b) (drop (length b) s)) else None)"

text \<open>The captures \<^verbatim>\<open>m[1]\<close>, \<^verbatim>\<open>m[2]\<close>, ... of a match, from the text of each atom.\<close>

fun captures :: "regex \<Rightarrow> jsstring list \<Rightarrow> jsstring option \<Rightarrow> jsstring list" where
  "captures (GOpen # r) (_ # ss) cur = captures r ss (Some [])"
| "captures (GClose # r) (_ # ss) cur = (case cur of Some g \<Rightarrow> g | None \<Rightarrow> []) # captures r ss None"
| "captures (_ # r) (s # ss) cur = captures r ss (map_option (\<lambda>g. g @ s) cur)"
| "captures _ _ _ = []"

text \<open>
  \<^verbatim>\<open>s.match(re)\<close> for an expression without the global flag: the first position of
  the text where the expression matches, and the captures there.
\<close>

fun search :: "regex \<Rightarrow> nat option \<Rightarrow> jsstring \<Rightarrow> jsstring list option" where
  "search r p [] = rmatch r p []"
| "search r p (x # xs) = orelse (rmatch r p (x # xs)) (search r (Some x) xs)"

definition js_match :: "jsstring \<Rightarrow> regex \<Rightarrow> jsstring list option" where
  "js_match s r = map_option (\<lambda>segs. captures r segs None) (search r None s)"

text \<open>
  \<^verbatim>\<open>s.replace(re, rep)\<close> for an expression with the global flag and a replacement
  text without \<^verbatim>\<open>$\<close>: the matches are found from left to right in the original
  text, without overlap; after an empty match the search moves on by one code unit.
\<close>

fun replace_from :: "regex \<Rightarrow> jsstring \<Rightarrow> nat option \<Rightarrow> jsstring \<Rightarrow> jsstring" where
  "replace_from r rep p [] = (case rmatch r p [] of Some _ \<Rightarrow> rep | None \<Rightarrow> [])"
| "replace_from r rep p (x # xs) =
     (case rmatch r p (x # xs) of
        None \<Rightarrow> x # replace_from r rep (Some x) xs
      | Some segs \<Rightarrow>
          (let n = length (concat segs) in
           if n = 0 then rep @ x # replace_from r rep (Some x) xs
           else rep @ replace_from r rep (after p (take n (x # xs))) (drop n (x # xs))))"

definition replaceAll :: "jsstring \<Rightarrow> regex \<Rightarrow> jsstring \<Rightarrow> jsstring" where
  "replaceAll s r rep = replace_from r rep None s"

text \<open>
  \<^verbatim>\<open>s.split(re)\<close> for an expression that matches no empty text (the only one the
  source splits by is \<^verbatim>\<open>/,\s*/\<close>): \<open>acc\<close> is the piece read so far, reversed.
\<close>

fun split_from :: "regex \<Rightarrow> nat option \<Rightarrow> jsstring \<Rightarrow> jsstring \<Rightarrow> jsstring list" where
  "split_from r p acc [] = [rev acc]"
| "split_from r p acc (x # xs) =
     (case rmatch r p (x # xs) of
        None \<Rightarrow> split_from r (Some x) (x # acc) xs
      | Some segs \<Rightarrow>
          (let n = length (concat segs) in
           if n = 0 then split_from r (Some x) (x # acc) xs
           else rev acc # split_from r (after p (take n (x # xs))) [] (drop n (x # xs))))"

definition split_re :: "jsstring \<Rightarrow> regex \<Rightarrow> jsstring list" where
  "split_re s r = split_from r None [] s"

section \<open>The expression and condition rewriters\<close>

definition rx_yes :: regex where "rx_yes = [WB, Str (js ''yes''), WB]"
definition rx_no :: regex where "rx_no = [WB, Str (js ''no''), WB]"
definition rx_and :: regex where "rx_and = [WB, Str (js ''and''), WB]"
definition rx_or :: regex where "rx_or = [WB, Str (js ''or''), WB]"
definition rx_not :: regex where "rx_not = [WB, Str (js ''not''), Plus Sp]"
definition rx_mod :: regex where "rx_mod = [WB, Str (js ''mod''), WB]"
definition rx_is :: regex where "rx_is = [WB, Str (js ''is''), WB]"
definition rx_is_not :: regex where "rx_is_not = [WB, Str (js ''is''), Plus Sp, Str (js ''not''), WB]"

definition translateExpr :: "jsstring \<Rightarrow> jsstring" where
  "translateExpr expr =
     (let e1 = replaceAll expr rx_yes (js ''true'');
          e2 = replaceAll e1 rx_no (js ''false'');
          e3 = replaceAll e2 rx_and (js ''&&'');
          e4 = replaceAll e3 rx_or (js ''||'');
          e5 = replaceAll e4 rx_not (js ''!'');
          e6 = replaceAll e5 rx_mod (js ''%'')
      in replaceAll e6 rx_is (js ''==''))"

definition translateCond :: "jsstring \<Rightarrow> jsstring" where
  "translateCond cond =
     (let c1 = replaceAll cond rx_is_not (js ''!='');
          c2 = replaceAll c1 rx_is (js ''=='');
          c3 = replaceAll c2 rx_and (js ''&&'');
          c4 = replaceAll c3 rx_or (js ''||'');
          c5 = replaceAll c4 rx_not (js ''!'')
      in replaceAll c5 rx_mod (js ''%''))"

section \<open>The block reconciler\<close>

text \<open>
  \<^verbatim>\<open>closeBlocks\<close>: the \<^verbatim>\<open>for\<close> loop copies the lines and adds, for each,
  the number of \<^verbatim>\<open>{\<close> (code unit 123) minus the number of \<^verbatim>\<open>}\<close> (code unit
  125) to the depth; the \<^verbatim>\<open>while\<close> loop appends one closing line per unit of
  positive depth.
\<close>

definition opens :: "jsstring \<Rightarrow> int" where
  "opens l = int (length (filter (\<lambda>c. c = 123) l))"

definition closes :: "jsstring \<Rightarrow> int" where
  "closes l = int (length (filter (\<lambda>c. c = 125) l))"

fun closeBlocks_scan :: "jsstring list \<Rightarrow> int \<Rightarrow> jsstring list \<Rightarrow> int \<times> jsstring list" where
  "closeBlocks_scan [] depth out = (depth, out)"
| "closeBlocks_scan (l # ls) depth out = closeBlocks_scan ls (depth + (opens l - closes l)) (out @ [l])"

function closeBlocks_fill :: "int \<Rightarrow> jsstring list \<Rightarrow> jsstring list" where
  "closeBlocks_fill depth out =
     (if depth > 0 then closeBlocks_fill (depth - 1) (out @ [js ''    }'']) else out)"
  by pat_completeness auto
termination
  by (relation "measure (\<lambda>(depth, out). nat depth)") auto

definition closeBlocks :: "jsstring list \<Rightarrow> jsstring list" where
  "closeBlocks lines = (case closeBlocks_scan lines 0 [] of (depth, out) \<Rightarrow> closeBlocks_fill depth out)"

section \<open>The translator\<close>

subsection \<open>The patterns of the dispatch loop\<close>

text \<open>
  Each expression is written atom by atom as in \<^verbatim>\<open>translateFlowToCpp\<close>; the
  apostrophe is the code unit 39.
\<close>

definition rx_to_start :: regex where
  "rx_to_start = [Bol, Str (js ''to''), Plus Sp, Str (js ''start''), Star Sp, Str (js '':''), Eol]"

definition rx_to_def :: regex where
  "rx_to_def = [Bol, Str (js ''to''), Plus Sp, GOpen, Plus Wd, GClose, Star Sp,
                GOpen, Star Dot, GClose, Str (js '':''), Star Sp, Eol]"

definition rx_struct :: regex where
  "rx_struct = [Bol, Str (js ''a''), Plus Sp, GOpen, Plus Wd, GClose, Plus Sp, Str (js ''has''),
                Star Sp, Str (js '':''), Star Sp, Eol]"

definition rx_field :: regex where
  "rx_field = [Bol, GOpen, Plus Wd, GClose, Plus Sp, Str (js ''as''), Plus Sp, GOpen, Plus Wd, GClose, Eol]"

definition rx_method :: regex where
  "rx_method = [Bol, Str (js ''a''), Plus Sp, GOpen, Plus Wd, GClose, Plus Sp, Str (js ''can''), Plus Sp,
                GOpen, Plus Wd, GClose, Star Sp, GOpen, Star Dot, GClose, Str (js '':''), Star Sp, Eol]"

definition rx_say_dq :: regex where
  "rx_say_dq = [Bol, Str (js ''say''), Plus Sp, Str (js ''\"''), GOpen, Star Dot, GClose, Str (js ''\"''), Eol]"

definition rx_say_sq :: regex where
  "rx_say_sq = [Bol, Str (js ''say''), Plus Sp, Str [39], GOpen, Star Dot, GClose, Str [39], Eol]"

definition rx_say :: regex where
  "rx_say = [Bol, Str (js ''say''), Plus Sp, GOpen, Plus Dot, GClose, Eol]"

definition rx_print_dq :: regex where
  "rx_print_dq = [Bol, Str (js ''print''), Plus Sp, Str (js ''\"''), GOpen, Star Dot, GClose, Str (js ''\"''), Eol]"

definition rx_print :: regex where
  "rx_print = [Bol, Str (js ''print''), Plus Sp, GOpen, Plus Dot, GClose, Eol]"

definition rx_is_dq :: regex where
  "rx_is_dq = [Bol, GOpen, Plus Wd, GClose, Plus Sp, Str (js ''is''), Plus Sp,
               Str (js ''\"''), GOpen, Star Dot, GClose, Str (js ''\"''), Eol]"

definition rx_is_sq :: regex where
  "rx_is_sq = [Bol, GOpen, Plus Wd, GClose, Plus Sp, Str (js ''is''), Plus Sp,
               Str [39], GOpen, Star Dot, GClose, Str [39], Eol]"

definition rx_is_double :: regex where
  "rx_is_double = [Bol, GOpen, Plus Wd, GClose, Plus Sp, Str (js ''is''), Plus Sp,
                   GOpen, Plus Dg, Str (js ''.''), Plus Dg, GClose, Eol]"

definition rx_is_int :: regex where
  "rx_is_int = [Bol, GOpen, Plus Wd, GClose, Plus Sp, Str (js ''is''), Plus Sp,
                GOpen, Opt (Ch 45), Plus Dg, GClose, Eol]"

definition rx_is_bool :: regex where
  "rx_is_bool = [Bol, GOpen, Plus Wd, GClose, Plus Sp, Str (js ''is''), Plus Sp,
                 GOpen, Alt (js ''yes'') (js ''no''), GClose, Eol]"

definition rx_is_list :: regex where
  "rx_is_list = [Bol, GOpen, Plus Wd, GClose, Plus Sp, Str (js ''is''), Plus Sp,
                 Str (js ''[''), GOpen, Plus Dot, GClose, Str (js '']''), Eol]"

definition rx_is_mutable :: regex where
  "rx_is_mutable = [Bol, GOpen, Plus Wd, GClose, Plus Sp, Str (js ''is''), Plus Sp,
                    GOpen, Plus Dot, GClose, Str (js '',''), Star Sp, Str (js ''can''), Plus Sp,
                    Str (js ''change''), Eol]"

definition rx_is_generic :: regex where
  "rx_is_generic = [Bol, GOpen, Plus Wd, GClose, Plus Sp, Str (js ''is''), Plus Sp,
                    GOpen, Plus Dot, GClose, Eol]"

definition rx_becomes :: regex where
  "rx_becomes = [Bol, GOpen, Plus Wd, GClose, Plus Sp, Str (js ''becomes''), Plus Sp,
                 GOpen, Plus Dot, GClose, Eol]"

definition rx_return :: regex where
  "rx_return = [Bol, Str (js ''return''), Plus Sp, GOpen, Plus Dot, GClose, Eol]"

definition rx_if :: regex where
  "rx_if = [Bol, Str (js ''if''), Plus Sp, GOpen, Plus Dot, GClose, Str (js '':''), Star Sp, Eol]"

definition rx_otherwise_if :: regex where
  "rx_otherwise_if = [Bol, Str (js ''otherwise''), Plus Sp, Str (js ''if''), Plus Sp,
                      GOpen, Plus Dot, GClose, Str (js '':''), Star Sp, Eol]"

definition rx_for_range :: regex where
  "rx_for_range = [Bol, Str (js ''for''), Plus Sp, Str (js ''each''), Plus Sp, GOpen, Plus Wd, GClose,
                   Plus Sp, Str (js ''in''), Plus Sp, GOpen, Plus Dg, GClose, Plus Sp, Str (js ''to''),
                   Plus Sp, GOpen, Plus Dg, GClose, Star Sp, Str (js '':''), Star Sp, Eol]"

definition rx_for_in :: regex where
  "rx_for_in = [Bol, Str (js ''for''), Plus Sp, Str (js ''each''), Plus Sp, GOpen, Plus Wd, GClose,
                Plus Sp, Str (js ''in''), Plus Sp, GOpen, Plus Wd, GClose, Star Sp, Str (js '':''),
                Star Sp, Eol]"

definition rx_repeat :: regex where
  "rx_repeat = [Bol, Str (js ''repeat''), Plus Sp, GOpen, Plus Dg, GClose, Plus Sp, Str (js ''times''),
                Star Sp, Str (js '':''), Star Sp, Eol]"

definition rx_while :: regex where
  "rx_while = [Bol, Str (js ''while''), Plus Sp, GOpen, Plus Dot, GClose, Str (js '':''), Star Sp, Eol]"

definition rx_pause :: regex where
  "rx_pause = [Bol, Str (js ''pause''), Plus Sp, GOpen, Plus Dg, GClose, Eol]"

definition rx_write :: regex where
  "rx_write = [Bol, Str (js ''write''), Plus Sp, Str (js ''\"''), GOpen, Plus Dot, GClose, Str (js ''\"''),
               Plus Sp, Str (js ''to''), Plus Sp, Str (js ''\"''), GOpen, Plus Dot, GClose, Str (js ''\"''), Eol]"

definition rx_read :: regex where
  "rx_read = [Bol, GOpen, Plus Wd, GClose, Plus Sp, Str (js ''is''), Plus Sp, Str (js ''read''), Plus Sp,
              Str (js ''\"''), GOpen, Plus Dot, GClose, Str (js ''\"''), Eol]"

definition rx_ask :: regex where
  "rx_ask = [Bol, GOpen, Plus Wd, GClose, Plus Sp, Str (js ''is''), Plus Sp, Str (js ''ask''), Plus Sp,
             Str (js ''\"''), GOpen, Plus Dot, GClose, Str (js ''\"''), Eol]"

definition rx_sqrt :: regex where
  "rx_sqrt = [Bol, GOpen, Plus Wd, GClose, Plus Sp, Str (js ''is''), Plus Sp, Str (js ''sqrt''), Plus Sp,
              GOpen, Plus Dot, GClose, Eol]"

definition rx_abs :: regex where
  "rx_abs = [Bol, GOpen, Plus Wd, GClose, Plus Sp, Str (js ''is''), Plus Sp, Str (js ''abs''), Plus Sp,
             GOpen, Plus Dot, GClose, Eol]"

definition rx_pow :: regex where
  "rx_pow = [Bol, GOpen, Plus Wd, GClose, Plus Sp, Str (js ''is''), Plus Sp, Str (js ''pow''), Plus Sp,
             GOpen, Plus Dot, GClose, Plus Sp, GOpen, Plus Dot, GClose, Eol]"

definition rx_random :: regex where
  "rx_random = [Bol, GOpen, Plus Wd, GClose, Plus Sp, Str (js ''is''), Plus Sp, Str (js ''random''), Plus Sp,
                GOpen, Plus Dg, GClose, Plus Sp, GOpen, Plus Dg, GClose, Eol]"

definition rx_call :: regex where
  "rx_call = [Bol, GOpen, Plus Wd, GClose, Plus Sp, GOpen, Plus Dot, GClose, Eol]"

definition rx_bare_call :: regex where
  "rx_bare_call = [Bol, GOpen, Plus Wd, GClose, Eol]"

definition rx_and_sep :: regex where
  "rx_and_sep = [Plus Sp, Str (js ''and''), Plus Sp]"

definition rx_comma :: regex where
  "rx_comma = [Str (js '',''), Star Sp]"

subsection \<open>Statement rules\<close>

text \<open>
  A statement rule reads the trimmed line and, when it matches, gives the include
  directives it adds and the line it pushes to the target list. \<open>pad\<close> is the
  four-space indentation of the source. The rules stand in the order of the source
  (from \<^verbatim>\<open>say\<close> to the bare function call); the first that matches consumes
  the line.
\<close>

type_synonym emission = "jsstring list \<times> jsstring"

definition rule_say_dq :: "jsstring \<Rightarrow> jsstring \<Rightarrow> emission option" where
  "rule_say_dq pad line = (case js_match line rx_say_dq of
     Some [m1] \<Rightarrow> Some ([], pad @ js ''std::cout << \"'' @ m1 @ js ''\" << std::endl;'')
   | _ \<Rightarrow> None)"

definition rule_say_sq :: "jsstring \<Rightarrow> jsstring \<Rightarrow> emission option" where
  "rule_say_sq pad line = (case js_match line rx_say_sq of
     Some [m1] \<Rightarrow> Some ([], pad @ js ''std::cout << \"'' @ m1 @ js ''\" << std::endl;'')
   | _ \<Rightarrow> None)"

definition rule_say :: "jsstring \<Rightarrow> jsstring \<Rightarrow> emission option" where
  "rule_say pad line = (case js_match line rx_say of
     Some [m1] \<Rightarrow> Some ([], pad @ js ''std::cout << '' @ translateExpr m1 @ js '' << std::endl;'')
   | _ \<Rightarrow> None)"

definition rule_print_dq :: "jsstring \<Rightarrow> jsstring \<Rightarrow> emission option" where
  "rule_print_dq pad line = (case js_match line rx_print_dq of
     Some [m1] \<Rightarrow> Some ([], pad @ js ''std::cout << \"'' @ m1 @ js ''\";'')
   | _ \<Rightarrow> None)"

definition rule_print :: "jsstring \<Rightarrow> jsstring \<Rightarrow> emission option" where
  "rule_print pad line = (case js_match line rx_print of
     Some [m1] \<Rightarrow> Some ([], pad @ js ''std::cout << '' @ translateExpr m1 @ js '';'')
   | _ \<Rightarrow> None)"

definition rule_is_dq :: "jsstring \<Rightarrow> jsstring \<Rightarrow> emission option" where
  "rule_is_dq pad line = (case js_match line rx_is_dq of
     Some [m1, m2] \<Rightarrow> Some ([], pad @ js ''const std::string '' @ m1 @ js '' = \"'' @ m2 @ js ''\";'')
   | _ \<Rightarrow> None)"

definition rule_is_sq :: "jsstring \<Rightarrow> jsstring \<Rightarrow> emission option" where
  "rule_is_sq pad line = (case js_match line rx_is_sq of
     Some [m1, m2] \<Rightarrow> Some ([], pad @ js ''const std::string '' @ m1 @ js '' = \"'' @ m2 @ js ''\";'')
   | _ \<Rightarrow> None)"

definition rule_is_double :: "jsstring \<Rightarrow> jsstring \<Rightarrow> emission option" where
  "rule_is_double pad line = (case js_match line rx_is_double of
     Some [m1, m2] \<Rightarrow> Some ([], pad @ js ''const double '' @ m1 @ js '' = '' @ m2 @ js '';'')
   | _ \<Rightarrow> None)"

definition rule_is_int :: "jsstring \<Rightarrow> jsstring \<Rightarrow> emission option" where
  "rule_is_int pad line = (case js_match line rx_is_int of
     Some [m1, m2] \<Rightarrow> Some ([], pad @ js ''const int '' @ m1 @ js '' = '' @ m2 @ js '';'')
   | _ \<Rightarrow> None)"

definition rule_is_bool :: "jsstring \<Rightarrow> jsstring \<Rightarrow> emission option" where
  "rule_is_bool pad line = (case js_match line rx_is_bool of
     Some [m1, m2] \<Rightarrow>
       Some ([], pad @ js ''const bool '' @ m1 @ js '' = '' @
                 (if m2 = js ''yes'' then js ''true'' else js ''false'') @ js '';'')
   | _ \<Rightarrow> None)"

definition rule_is_list :: "jsstring \<Rightarrow> jsstring \<Rightarrow> emission option" where
  "rule_is_list pad line = (case js_match line rx_is_list of
     Some [m1, m2] \<Rightarrow>
       Some ([], pad @ js ''const auto '' @ m1 @ js '' = std::vector<int>{'' @ m2 @ js ''};'')
   | _ \<Rightarrow> None)"

definition rule_is_mutable :: "jsstring \<Rightarrow> jsstring \<Rightarrow> emission option" where
  "rule_is_mutable pad line = (case js_match line rx_is_mutable of
     Some [m1, m2] \<Rightarrow> Some ([], pad @ js ''auto '' @ m1 @ js '' = '' @ translateExpr m2 @ js '';'')
   | _ \<Rightarrow> None)"

definition rule_is_generic :: "jsstring \<Rightarrow> jsstring \<Rightarrow> emission option" where
  "rule_is_generic pad line = (case js_match line rx_is_generic of
     Some [m1, m2] \<Rightarrow>
       if m1 \<in> set [js ''if'', js ''for'', js ''while'', js ''a''] then None
       else Some ([], pad @ js ''const auto '' @ m1 @ js '' = '' @ translateExpr m2 @ js '';'')
   | _ \<Rightarrow> None)"

definition rule_becomes :: "jsstring \<Rightarrow> jsstring \<Rightarrow> emission option" where
  "rule_becomes pad line = (case js_match line rx_becomes of
     Some [m1, m2] \<Rightarrow> Some ([], pad @ m1 @ js '' = '' @ translateExpr m2 @ js '';'')
   | _ \<Rightarrow> None)"

definition rule_return :: "jsstring \<Rightarrow> jsstring \<Rightarrow> emission option" where
  "rule_return pad line = (case js_match line rx_return of
     Some [m1] \<Rightarrow> Some ([], pad @ js ''return '' @ translateExpr m1 @ js '';'')
   | _ \<Rightarrow> None)"

definition rule_return_bare :: "jsstring \<Rightarrow> jsstring \<Rightarrow> emission option" where
  "rule_return_bare pad line = (if line = js ''return'' then Some ([], pad @ js ''return;'') else None)"

definition rule_if :: "jsstring \<Rightarrow> jsstring \<Rightarrow> emission option" where
  "rule_if pad line = (case js_match line rx_if of
     Some [m1] \<Rightarrow> Some ([], pad @ js ''if ('' @ translateCond m1 @ js '') {'')
   | _ \<Rightarrow> None)"

definition rule_otherwise_if :: "jsstring \<Rightarrow> jsstring \<Rightarrow> emission option" where
  "rule_otherwise_if pad line = (case js_match line rx_otherwise_if of
     Some [m1] \<Rightarrow> Some ([], pad @ js ''} else if ('' @ translateCond m1 @ js '') {'')
   | _ \<Rightarrow> None)"

definition rule_otherwise :: "jsstring \<Rightarrow> jsstring \<Rightarrow> emission option" where
  "rule_otherwise pad line = (if line = js ''otherwise:'' then Some ([], pad @ js ''} else {'') else None)"

definition rule_for_range :: "jsstring \<Rightarrow> jsstring \<Rightarrow> emission option" where
  "rule_for_range pad line = (case js_match line rx_for_range of
     Some [m1, m2, m3] \<Rightarrow>
       Some ([], pad @ js ''for (int '' @ m1 @ js '' = '' @ m2 @ js ''; '' @ m1 @ js '' <= '' @ m3 @
                 js ''; '' @ m1 @ js ''++) {'')
   | _ \<Rightarrow> None)"

definition rule_for_in :: "jsstring \<Rightarrow> jsstring \<Rightarrow> emission option" where
  "rule_for_in pad line = (case js_match line rx_for_in of
     Some [m1, m2] \<Rightarrow> Some ([], pad @ js ''for (const auto& '' @ m1 @ js '' : '' @ m2 @ js '') {'')
   | _ \<Rightarrow> None)"

definition rule_repeat :: "jsstring \<Rightarrow> jsstring \<Rightarrow> emission option" where
  "rule_repeat pad line = (case js_match line rx_repeat of
     Some [m1] \<Rightarrow> Some ([], pad @ js ''for (int _i = 0; _i < '' @ m1 @ js ''; _i++) {'')
   | _ \<Rightarrow> None)"

definition rule_while :: "jsstring \<Rightarrow> jsstring \<Rightarrow> emission option" where
  "rule_while pad line = (case js_match line rx_while of
     Some [m1] \<Rightarrow> Some ([], pad @ js ''while ('' @ translateCond m1 @ js '') {'')
   | _ \<Rightarrow> None)"

definition rule_skip :: "jsstring \<Rightarrow> jsstring \<Rightarrow> emission option" where
  "rule_skip pad line = (if line = js ''skip'' then Some ([], pad @ js ''continue;'') else None)"

definition rule_stop :: "jsstring \<Rightarrow> jsstring \<Rightarrow> emission option" where
  "rule_stop pad line = (if line = js ''stop'' then Some ([], pad @ js ''break;'') else None)"

definition rule_pause :: "jsstring \<Rightarrow> jsstring \<Rightarrow> emission option" where
  "rule_pause pad line = (case js_match line rx_pause of
     Some [m1] \<Rightarrow>
       Some ([js ''#include <thread>'', js ''#include <chrono>''],
             pad @ js ''std::this_thread::sleep_for(std::chrono::milliseconds('' @ m1 @ js ''));'')
   | _ \<Rightarrow> None)"

definition rule_write :: "jsstring \<Rightarrow> jsstring \<Rightarrow> emission option" where
  "rule_write pad line = (case js_match line rx_write of
     Some [m1, m2] \<Rightarrow>
       Some ([js ''#include <fstream>''],
             pad @ js ''{ std::ofstream f(\"'' @ m2 @ js ''\"); f << \"'' @ m1 @ js ''\"; }'')
   | _ \<Rightarrow> None)"

definition rule_read :: "jsstring \<Rightarrow> jsstring \<Rightarrow> emission option" where
  "rule_read pad line = (case js_match line rx_read of
     Some [m1, m2] \<Rightarrow>
       Some ([js ''#include <fstream>''],
             pad @ js ''std::string '' @ m1 @ js ''; { std::ifstream f(\"'' @ m2 @
             js ''\"); std::ostringstream s; s << f.rdbuf(); '' @ m1 @ js '' = s.str(); }'')
   | _ \<Rightarrow> None)"

definition rule_ask :: "jsstring \<Rightarrow> jsstring \<Rightarrow> emission option" where
  "rule_ask pad line = (case js_match line rx_ask of
     Some [m1, m2] \<Rightarrow>
       Some ([], pad @ js ''std::string '' @ m1 @ js ''; std::cout << \"'' @ m2 @
                 js ''\"; std::getline(std::cin, '' @ m1 @ js '');'')
   | _ \<Rightarrow> None)"

definition rule_sqrt :: "jsstring \<Rightarrow> jsstring \<Rightarrow> emission option" where
  "rule_sqrt pad line = (case js_match line rx_sqrt of
     Some [m1, m2] \<Rightarrow>
       Some ([], pad @ js ''const auto '' @ m1 @ js '' = std::sqrt('' @ translateExpr m2 @ js '');'')
   | _ \<Rightarrow> None)"

definition rule_abs :: "jsstring \<Rightarrow> jsstring \<Rightarrow> emission option" where
  "rule_abs pad line = (case js_match line rx_abs of
     Some [m1, m2] \<Rightarrow>
       Some ([], pad @ js ''const auto '' @ m1 @ js '' = std::abs('' @ translateExpr m2 @ js '');'')
   | _ \<Rightarrow> None)"

definition rule_pow :: "jsstring \<Rightarrow> jsstring \<Rightarrow> emission option" where
  "rule_pow pad line = (case js_match line rx_pow of
     Some [m1, m2, m3] \<Rightarrow>
       Some ([], pad @ js ''const auto '' @ m1 @ js '' = std::pow('' @ translateExpr m2 @ js '', '' @
                 translateExpr m3 @ js '');'')
   | _ \<Rightarrow> None)"

definition rule_random :: "jsstring \<Rightarrow> jsstring \<Rightarrow> emission option" where
  "rule_random pad line = (case js_match line rx_random of
     Some [m1, m2, m3] \<Rightarrow>
       Some ([js ''#include <random>''],
             pad @ js ''int '' @ m1 @
             js ''; { std::random_device rd; std::mt19937 gen(rd()); std::uniform_int_distribution<> dis('' @
             m2 @ js '', '' @ m3 @ js ''); '' @ m1 @ js '' = dis(gen); }'')
   | _ \<Rightarrow> None)"

definition call_keywords :: "jsstring list" where
  "call_keywords =
     [js ''is'', js ''becomes'', js ''has'', js ''can'', js ''as'', js ''in'', js ''to'', js ''if'',
      js ''for'', js ''while'', js ''repeat'', js ''say'', js ''print'', js ''write'', js ''return'',
      js ''otherwise'', js ''skip'', js ''stop'', js ''pause'', js ''test'', js ''assert'', js ''try'',
      js ''catch'', js ''throw'', js ''log'']"

definition rule_call :: "jsstring \<Rightarrow> jsstring \<Rightarrow> emission option" where
  "rule_call pad line = (case js_match line rx_call of
     Some [m1, m2] \<Rightarrow>
       if m1 \<in> set call_keywords then None
       else (let args = replaceAll m2 rx_and_sep (js '', '')
             in Some ([], pad @ m1 @ js ''('' @ args @ js '');''))
   | _ \<Rightarrow> None)"

definition rule_bare_call :: "jsstring \<Rightarrow> jsstring \<Rightarrow> emission option" where
  "rule_bare_call pad line = (case js_match line rx_bare_call of
     Some [m1] \<Rightarrow>
       if m1 \<in> set [js ''skip'', js ''stop'', js ''return'', js ''otherwise''] then None
       else Some ([], pad @ m1 @ js ''();'')
   | _ \<Rightarrow> None)"

fun first_match :: "('a \<Rightarrow> 'b option) list \<Rightarrow> 'a \<Rightarrow> 'b option" where
  "first_match [] x = None"
| "first_match (f # fs) x = (case f x of Some y \<Rightarrow> Some y | None \<Rightarrow> first_match fs x)"

definition statement_rules :: "jsstring \<Rightarrow> (jsstring \<Rightarrow> emission option) list" where
  "statement_rules pad =
     [rule_say_dq pad, rule_say_sq pad, rule_say pad, rule_print_dq pad, rule_print pad,
      rule_is_dq pad, rule_is_sq pad, rule_is_double pad, rule_is_int pad, rule_is_bool pad,
      rule_is_list pad, rule_is_mutable pad, rule_is_generic pad,
      rule_becomes pad,
      rule_return pad, rule_return_bare pad,
      rule_if pad, rule_otherwise_if pad, rule_otherwise pad,
      rule_for_range pad, rule_for_in pad, rule_repeat pad, rule_while pad, rule_skip pad, rule_stop pad,
      rule_pause pad,
      rule_write pad, rule_read pad,
      rule_ask pad,
      rule_sqrt pad, rule_abs pad, rule_pow pad,
      rule_random pad,
      rule_call pad,
      rule_bare_call pad]"

definition statement :: "jsstring \<Rightarrow> jsstring \<Rightarrow> emission option" where
  "statement pad line = first_match (statement_rules pad) line"

subsection \<open>The translation state and the dispatch loop\<close>

text \<open>
  The local variables of \<^verbatim>\<open>translateFlowToCpp\<close> that the loop updates. The
  include set is a JavaScript \<^verbatim>\<open>Set\<close>, which keeps insertion order: a list
  without duplicates, here \<open>includeSet\<close>. (\<^verbatim>\<open>indentStack\<close> and \<^verbatim>\<open>stripped\<close> are never read.)
\<close>

record tstate =
  includeSet :: "jsstring list"
  declarations :: "jsstring list"
  bodyLines :: "jsstring list"
  structs :: "jsstring list"
  inFunction :: bool
  inStruct :: bool
  currentFunc :: "jsstring option"
  currentStruct :: "jsstring option"

definition initial :: tstate where
  "initial =
     \<lparr> includeSet = [js ''#include <iostream>'', js ''#include <string>'', js ''#include <vector>'',
                     js ''#include <cmath>'', js ''#include <sstream>'', js ''#include <algorithm>''],
       declarations = [], bodyLines = [], structs = [],
       inFunction = False, inStruct = False, currentFunc = None, currentStruct = None \<rparr>"

definition set_add :: "jsstring \<Rightarrow> jsstring list \<Rightarrow> jsstring list" where
  "set_add x xs = (if x \<in> set xs then xs else xs @ [x])"

text \<open>
  The parameter list of a function or method header:
  \<^verbatim>\<open>.replace(/\s+and\s+/g, ", ").split(/,\s*/).map(a => `auto ${a.trim()}`).join(", ")\<close>.
\<close>

definition params :: "jsstring \<Rightarrow> jsstring" where
  "params a =
     join (js '', '')
       (map (\<lambda>a. js ''auto '' @ trim a) (split_re (replaceAll a rx_and_sep (js '', '')) rx_comma))"

text \<open>
  \<^verbatim>\<open>typeMap[m[2]]\<close>: the four own properties of the object literal and, since
  the lookup follows the prototype chain, the properties every object inherits from
  \<^verbatim>\<open>Object.prototype\<close>, whose values are truthy and are printed by the template
  literal as V8 prints a native function or a plain object.
\<close>

definition object_prototype_functions :: "jsstring list" where
  "object_prototype_functions =
     [js ''hasOwnProperty'', js ''isPrototypeOf'', js ''propertyIsEnumerable'', js ''toLocaleString'',
      js ''toString'', js ''valueOf'', js ''__defineGetter__'', js ''__defineSetter__'',
      js ''__lookupGetter__'', js ''__lookupSetter__'']"

definition typeMap :: "jsstring \<Rightarrow> jsstring option" where
  "typeMap t =
     (if t = js ''text'' then Some (js ''std::string'')
      else if t = js ''number'' then Some (js ''int'')
      else if t = js ''decimal'' then Some (js ''double'')
      else if t = js ''boolean'' then Some (js ''bool'')
      else if t = js ''constructor'' then Some (js ''function Object() { [native code] }'')
      else if t \<in> set object_prototype_functions then Some (js ''function '' @ t @ js ''() { [native code] }'')
      else if t = js ''__proto__'' then Some (js ''[object Object]'')
      else None)"

definition rule_to_start :: "jsstring \<Rightarrow> tstate \<Rightarrow> tstate option" where
  "rule_to_start line s = (case js_match line rx_to_start of
     Some _ \<Rightarrow> Some (s\<lparr>inFunction := False\<rparr>)
   | None \<Rightarrow> None)"

definition rule_to_def :: "jsstring \<Rightarrow> tstate \<Rightarrow> tstate option" where
  "rule_to_def line s = (case js_match line rx_to_def of
     Some [m1, m2] \<Rightarrow>
       (let name = m1;
            argsRaw = trim m2;
            args = (if argsRaw \<noteq> [] then params argsRaw else [])
        in Some (s\<lparr>declarations := declarations s @ [js ''auto '' @ name @ js ''('' @ args @ js '') {''],
                   inFunction := True, currentFunc := Some name\<rparr>))
   | _ \<Rightarrow> None)"

text \<open>The end of a function block: a line at indentation zero that does not start with \<^verbatim>\<open>to \<close>.\<close>

definition dedent_close :: "nat \<Rightarrow> jsstring \<Rightarrow> tstate \<Rightarrow> tstate" where
  "dedent_close indent line s =
     (if inFunction s \<and> indent = 0 \<and> line \<noteq> [] \<and> \<not> startsWith line (js ''to '')
      then s\<lparr>declarations := declarations s @ [js ''}'' @ [10]], inFunction := False, currentFunc := None\<rparr>
      else s)"

definition rule_struct :: "jsstring \<Rightarrow> tstate \<Rightarrow> tstate option" where
  "rule_struct line s = (case js_match line rx_struct of
     Some [m1] \<Rightarrow>
       Some (s\<lparr>currentStruct := Some m1, structs := structs s @ [js ''struct '' @ m1 @ js '' {''],
               inStruct := True\<rparr>)
   | _ \<Rightarrow> None)"

definition rule_field :: "jsstring \<Rightarrow> tstate \<Rightarrow> tstate option" where
  "rule_field line s =
     (if inStruct s then
        (case js_match line rx_field of
           Some [m1, m2] \<Rightarrow>
             Some (s\<lparr>structs := structs s @
                     [js ''    '' @ (case typeMap m2 of Some ty \<Rightarrow> ty | None \<Rightarrow> js ''auto'') @ js '' '' @
                      m1 @ js '';'']\<rparr>)
         | _ \<Rightarrow> None)
      else None)"

definition struct_close :: "nat \<Rightarrow> tstate \<Rightarrow> tstate" where
  "struct_close indent s =
     (if inStruct s \<and> indent = 0
      then s\<lparr>structs := structs s @ [js ''};'' @ [10]], inStruct := False, currentStruct := None\<rparr>
      else s)"

definition rule_method :: "jsstring \<Rightarrow> tstate \<Rightarrow> tstate option" where
  "rule_method line s = (case js_match line rx_method of
     Some [m1, m2, m3] \<Rightarrow>
       (let args = (if trim m3 \<noteq> [] then params m3 else [])
        in Some (s\<lparr>declarations := declarations s @
                     [js ''void '' @ m1 @ js ''_'' @ m2 @ js ''('' @ m1 @ js ''& self'' @
                      (if args \<noteq> [] then js '', '' @ args else []) @ js '') {''],
                   inFunction := True\<rparr>))
   | _ \<Rightarrow> None)"

text \<open>
  \<open>emit target e s\<close>: the include directives of \<open>e\<close> are added to the set and its
  line is pushed to the target list, which is \<^verbatim>\<open>declarations\<close> when the line was
  read inside a function and \<^verbatim>\<open>bodyLines\<close> otherwise. The source chooses the
  target at the start of the iteration, before the function block may be closed.
\<close>

definition emit :: "bool \<Rightarrow> emission \<Rightarrow> tstate \<Rightarrow> tstate" where
  "emit target e s =
     (let s' = s\<lparr>includeSet := foldl (\<lambda>incs i. set_add i incs) (includeSet s) (fst e)\<rparr>
      in if target then s'\<lparr>declarations := declarations s' @ [snd e]\<rparr>
         else s'\<lparr>bodyLines := bodyLines s' @ [snd e]\<rparr>)"

definition fallback :: "jsstring \<Rightarrow> jsstring \<Rightarrow> emission" where
  "fallback pad line = ([], pad @ js ''// [flow] '' @ line)"

definition step :: "tstate \<Rightarrow> jsstring \<Rightarrow> tstate" where
  "step s raw =
     (let indent = length raw - length (trimStart raw);
          line = trim raw
      in if line = [] \<or> startsWith line (js ''//'') \<or> startsWith line (js ''#'') then s
         else
           (let target = inFunction s;
                pad = (if inFunction s then js ''    '' else js ''    '')
            in case rule_to_start line s of Some s' \<Rightarrow> s' | None \<Rightarrow>
               (case rule_to_def line s of Some s' \<Rightarrow> s' | None \<Rightarrow>
               (let s1 = dedent_close indent line s
                in case rule_struct line s1 of Some s' \<Rightarrow> s' | None \<Rightarrow>
                   (case rule_field line s1 of Some s' \<Rightarrow> s' | None \<Rightarrow>
                   (let s2 = struct_close indent s1
                    in case rule_method line s2 of Some s' \<Rightarrow> s' | None \<Rightarrow>
                       (case statement pad line of
                          Some e \<Rightarrow> emit target e s2
                        | None \<Rightarrow> emit target (fallback pad line) s2)))))))"

subsection \<open>Assembly\<close>

definition finish :: "tstate \<Rightarrow> tstate" where
  "finish s =
     (let s1 = (if inFunction s then s\<lparr>declarations := declarations s @ [js ''}'' @ [10]]\<rparr> else s)
      in if inStruct s1 then s1\<lparr>structs := structs s1 @ [js ''};'' @ [10]]\<rparr> else s1)"

text \<open>The identifying comment \<^verbatim>\<open>// <phi> = 1.618033988749895\<close>, where \<^verbatim>\<open><phi>\<close> is the Greek small letter phi, code unit 966, and the number is \<^verbatim>\<open>PHI\<close> as the template literal prints it.\<close>

definition phi_comment :: jsstring where
  "phi_comment = js ''// '' @ [966] @ js '' = 1.618033988749895''"

text \<open>
  \<^verbatim>\<open>parts.push(...xs)\<close> passes the elements of \<open>xs\<close> as the arguments of one
  call. An engine takes only so many arguments in a call and raises a
  \<^verbatim>\<open>RangeError\<close> beyond that; the bound belongs to the engine and not to the
  program, so it is the parameter \<open>maxArgs\<close>. The include directives are pushed one
  at a time by a loop, which has no such bound. Limits of memory and of the length of
  a string are not modelled.
\<close>

datatype js_error = RangeError

definition push_spread :: "nat \<Rightarrow> jsstring list \<Rightarrow> jsstring list \<Rightarrow> js_error + jsstring list" where
  "push_spread maxArgs parts xs = (if length xs \<le> maxArgs then Inr (parts @ xs) else Inl RangeError)"

definition assemble :: "nat \<Rightarrow> tstate \<Rightarrow> js_error + jsstring list" where
  "assemble maxArgs s =
     (let closedBody = closeBlocks (bodyLines s);
          closedDecl = closeBlocks (declarations s);
          parts = includeSet s;
          parts = parts @ [[]];
          parts = parts @ [phi_comment];
          parts = parts @ [[]]
      in case (if structs s \<noteq> [] then push_spread maxArgs parts (structs s) else Inr parts) of
           Inl err \<Rightarrow> Inl err
         | Inr parts \<Rightarrow>
             (case (if closedDecl \<noteq> [] then push_spread maxArgs parts closedDecl else Inr parts) of
                Inl err \<Rightarrow> Inl err
              | Inr parts \<Rightarrow>
                  (case push_spread maxArgs (parts @ [js ''int main() {'']) closedBody of
                     Inl err \<Rightarrow> Inl err
                   | Inr parts \<Rightarrow> Inr (parts @ [js ''    return 0;''] @ [js ''}'']))))"

definition translate_state :: "jsstring \<Rightarrow> tstate" where
  "translate_state flowCode = finish (foldl step initial (split_lines flowCode))"

definition translateFlowToCpp :: "nat \<Rightarrow> jsstring \<Rightarrow> js_error + jsstring" where
  "translateFlowToCpp maxArgs flowCode =
     (case assemble maxArgs (translate_state flowCode) of
        Inl err \<Rightarrow> Inl err
      | Inr parts \<Rightarrow> Inr (join [10] parts))"

text \<open>
  The second of the programs of \<^verbatim>\<open>FLOW_IDEAS\<close>, which the server translates by
  itself while a client is connected.
\<close>

definition flow_idea_fibonacci :: jsstring where
  "flow_idea_fibonacci =
     js ''to fibonacci n:'' @ [10] @
     js ''    if n <= 1:'' @ [10] @
     js ''        return n'' @ [10] @
     js ''    return fibonacci n - 1 and n - 2'' @ [10] @
     js ''result is fibonacci 10'' @ [10] @
     js ''say result''"

section \<open>The sandbox harness\<close>

text \<open>
  \<^verbatim>\<open>compileAndRun\<close> calls the outside world four times: \<^verbatim>\<open>which g++\<close>,
  \<^verbatim>\<open>writeFileSync\<close>, the compiler and the produced binary. Each call either
  returns or throws an error object; a timeout is one of the throws. The outcomes are
  the fields of an environment. The \<^verbatim>\<open>stderr\<close> and \<^verbatim>\<open>stdout\<close> properties of a
  thrown error are absent, a \<^verbatim>\<open>Buffer\<close> (an object, truthy also when empty) or a
  string (truthy when not empty).
\<close>

datatype jsval = Undefined | Buffer jsstring | Text jsstring

fun truthy :: "jsval \<Rightarrow> bool" where
  "truthy Undefined = False"
| "truthy (Buffer b) = True"
| "truthy (Text t) = (t \<noteq> [])"

fun toString :: "jsval \<Rightarrow> jsstring" where
  "toString Undefined = js ''undefined''"
| "toString (Buffer b) = b"
| "toString (Text t) = t"

record exec_error =
  stderr :: jsval
  stdout :: jsval
  message :: jsstring

record sandbox =
  which_gpp :: "exec_error option"
  writeFileSync :: "jsstring \<Rightarrow> exec_error option"
  compile :: "jsstring \<Rightarrow> exec_error option"
  run :: "jsstring \<Rightarrow> exec_error + jsstring"

record run_result =
  success :: bool
  outputText :: jsstring

definition caught :: "exec_error \<Rightarrow> run_result" where
  "caught err =
     (let msg = (if truthy (stderr err) then toString (stderr err)
                 else if truthy (stdout err) then toString (stdout err)
                 else message err)
      in \<lparr> success = False, outputText = msg \<rparr>)"

definition compileAndRun :: "sandbox \<Rightarrow> jsstring \<Rightarrow> run_result" where
  "compileAndRun env cppSource =
     (case which_gpp env of
        Some _ \<Rightarrow> \<lparr> success = False, outputText = js ''[runtime unavailable: g++ not found]'' \<rparr>
      | None \<Rightarrow>
          (case writeFileSync env cppSource of
             Some err \<Rightarrow> caught err
           | None \<Rightarrow>
               (case compile env cppSource of
                  Some err \<Rightarrow> caught err
                | None \<Rightarrow>
                    (case run env cppSource of
                       Inl err \<Rightarrow> caught err
                     | Inr out \<Rightarrow> \<lparr> success = True, outputText = (if out \<noteq> [] then out else js ''(no output)'') \<rparr>))))"

section \<open>The history ledger\<close>

text \<open>
  The module-level variables \<^verbatim>\<open>ideaStream\<close> and \<^verbatim>\<open>compilationCount\<close> are the
  engine state. \<^verbatim>\<open>logIdea\<close> reads the clock, which is the argument \<open>now\<close>. The
  oscillation weight is computed by the source in double precision; the model keeps
  the formula over the reals, and no property below depends on its value.
\<close>

definition PHI :: real where
  "PHI = 1.618033988749895"

record idea =
  idea_id :: nat
  idea_flow :: jsstring
  idea_cpp :: jsstring
  idea_success :: bool
  idea_output :: jsstring
  idea_timestamp :: jsstring
  idea_phi_pulse :: real

record engine =
  ideaStream :: "idea list"
  compilationCount :: nat

definition engine_start :: engine where
  "engine_start = \<lparr> ideaStream = [], compilationCount = 0 \<rparr>"

definition logIdea :: "jsstring \<Rightarrow> jsstring \<Rightarrow> bool \<Rightarrow> jsstring \<Rightarrow> jsstring \<Rightarrow> engine \<Rightarrow> idea \<times> engine" where
  "logIdea flow cpp succeeded out now g =
     (let count = compilationCount g + 1;
          idea = \<lparr> idea_id = count, idea_flow = flow, idea_cpp = cpp, idea_success = succeeded,
                   idea_output = out, idea_timestamp = now,
                   idea_phi_pulse = sin (real count * PHI) * 0.5 + 0.5 \<rparr>;
          pushed = ideaStream g @ [idea];
          shifted = (if length pushed > 500 then tl pushed else pushed)
      in (idea, \<lparr> ideaStream = shifted, compilationCount = count \<rparr>))"

text \<open>A sequence of \<^verbatim>\<open>logIdea\<close> calls, each with its five arguments.\<close>

type_synonym log_call = "jsstring \<times> jsstring \<times> bool \<times> jsstring \<times> jsstring"

fun log_all :: "log_call list \<Rightarrow> engine \<Rightarrow> engine" where
  "log_all [] g = g"
| "log_all ((flow, cpp, succeeded, out, now) # calls) g =
     log_all calls (snd (logIdea flow cpp succeeded out now g))"

section \<open>The message handler\<close>


section \<open>Notions used by the properties\<close>

text \<open>
  The net block-delimiter depth of a list of lines: the sum over the lines of the
  number of opening minus the number of closing delimiters, as \<^verbatim>\<open>closeBlocks\<close>
  counts them.
\<close>

definition net_depth :: "jsstring list \<Rightarrow> int" where
  "net_depth lines = sum_list (map (\<lambda>l. opens l - closes l) lines)"

text \<open>
  The indentation of a raw line, and the state after the two closing steps that the loop
  performs on every line that is no function header: the end of a function block at
  indentation zero and the end of a struct at indentation zero.
\<close>

definition indent_of :: "jsstring \<Rightarrow> nat" where
  "indent_of raw = length raw - length (trimStart raw)"

definition pre_closed :: "tstate \<Rightarrow> jsstring \<Rightarrow> tstate" where
  "pre_closed s raw = struct_close (indent_of raw) (dedent_close (indent_of raw) (trim raw) s)"

text \<open>
  A raw line is matched by no pattern rule in the state \<open>s\<close>: it is not blank, not a
  comment, and every rule of the loop, tried where the loop tries it, fails.
\<close>

definition no_rule_matches :: "tstate \<Rightarrow> jsstring \<Rightarrow> bool" where
  "no_rule_matches s raw \<longleftrightarrow>
     (let line = trim raw;
          s1 = dedent_close (indent_of raw) line s
      in line \<noteq> [] \<and> \<not> startsWith line (js ''//'') \<and> \<not> startsWith line (js ''#'') \<and>
         rule_to_start line s = None \<and> rule_to_def line s = None \<and>
         rule_struct line s1 = None \<and> rule_field line s1 = None \<and>
         rule_method line (pre_closed s raw) = None \<and>
         statement (js ''    '') line = None)"

text \<open>
  The lines of the output when no push raises, and the condition under which none
  does: each of the three lists that the assembly spreads has at most \<open>maxArgs\<close>
  lines.
\<close>

definition sections :: "tstate \<Rightarrow> jsstring list" where
  "sections s =
     includeSet s @ [[], phi_comment, []] @ structs s @ closeBlocks (declarations s) @
     [js ''int main() {''] @ closeBlocks (bodyLines s) @ [js ''    return 0;'', js ''}'']"

definition spread_fits :: "nat \<Rightarrow> tstate \<Rightarrow> bool" where
  "spread_fits maxArgs s \<longleftrightarrow>
     length (structs s) \<le> maxArgs \<and> length (closeBlocks (declarations s)) \<le> maxArgs \<and>
     length (closeBlocks (bodyLines s)) \<le> maxArgs"

text \<open>
  The include directives that a raw line asks for when the loop reads it in the state
  \<open>s\<close>: those of the statement rule that takes the line, and none when the line is
  blank, a comment, taken by a header rule or taken by no rule. \<open>requests\<close> are
  the directives asked for by a sequence of lines, in the order of the text, and
  \<open>first_seen\<close> keeps the first occurrence of each element of a list.
\<close>

definition line_requests :: "tstate \<Rightarrow> jsstring \<Rightarrow> jsstring list" where
  "line_requests s raw =
     (let line = trim raw;
          s1 = dedent_close (indent_of raw) line s
      in if line = [] \<or> startsWith line (js ''//'') \<or> startsWith line (js ''#'') then []
         else if rule_to_start line s \<noteq> None \<or> rule_to_def line s \<noteq> None \<or>
                 rule_struct line s1 \<noteq> None \<or> rule_field line s1 \<noteq> None \<or>
                 rule_method line (pre_closed s raw) \<noteq> None then []
         else (case statement (js ''    '') line of Some e \<Rightarrow> fst e | None \<Rightarrow> []))"

fun requests :: "tstate \<Rightarrow> jsstring list \<Rightarrow> jsstring list" where
  "requests s [] = []"
| "requests s (raw # raws) = line_requests s raw @ requests (step s raw) raws"

definition first_seen :: "'a list \<Rightarrow> 'a list" where
  "first_seen xs = rev (remdups (rev xs))"

text \<open>A line without block delimiters, and the include directives the rules can add.\<close>

definition brace_free :: "jsstring \<Rightarrow> bool" where
  "brace_free l \<longleftrightarrow> opens l = 0 \<and> closes l = 0"

definition extra_includes :: "jsstring list" where
  "extra_includes =
     [js ''#include <thread>'', js ''#include <chrono>'', js ''#include <fstream>'', js ''#include <random>'']"

text \<open>An identifier: a non-empty run of word characters, what \<^verbatim>\<open>(\w+)\<close> captures.\<close>

definition ident :: "jsstring \<Rightarrow> bool" where
  "ident x \<longleftrightarrow> x \<noteq> [] \<and> list_all is_word x"

text \<open>
  A separator is a non-empty run of white space, what \<^verbatim>\<open>\s+\<close> takes; a digit
  run is what \<^verbatim>\<open>\d+\<close> takes; a text is on one line when the dot matches each of
  its code units.
\<close>

definition spaces :: "jsstring \<Rightarrow> bool" where
  "spaces ws \<longleftrightarrow> ws \<noteq> [] \<and> list_all is_space ws"

definition digits :: "jsstring \<Rightarrow> bool" where
  "digits d \<longleftrightarrow> d \<noteq> [] \<and> list_all is_digit d"

definition one_line :: "jsstring \<Rightarrow> bool" where
  "one_line t \<longleftrightarrow> list_all (\<lambda>c. \<not> is_line_terminator c) t"

text \<open>
  The literal shapes the specification lists: a text between double quotes, a text
  between apostrophes, digits, dot, digits, an optionally signed integer, the two
  truth values, and a non-empty text between brackets. \<open>written l\<close> is the literal
  as the Flow line has it, \<open>binding x l\<close> the immutable binding the specification
  gives it for the name \<open>x\<close>, and \<open>mutable_binding x l\<close> the mutable binding of
  the rewritten right-hand side.
\<close>

datatype literal =
    TextDQ jsstring | TextSQ jsstring | Decimal jsstring jsstring | Whole bool jsstring
  | Truth bool | Sequence jsstring

fun well_formed :: "literal \<Rightarrow> bool" where
  "well_formed (TextDQ t) = one_line t"
| "well_formed (TextSQ t) = one_line t"
| "well_formed (Decimal a b) = (digits a \<and> digits b)"
| "well_formed (Whole negative d) = digits d"
| "well_formed (Truth b) = True"
| "well_formed (Sequence t) = (t \<noteq> [] \<and> one_line t)"

fun written :: "literal \<Rightarrow> jsstring" where
  "written (TextDQ t) = js ''\"'' @ t @ js ''\"''"
| "written (TextSQ t) = [39] @ t @ [39]"
| "written (Decimal a b) = a @ js ''.'' @ b"
| "written (Whole negative d) = (if negative then js ''-'' else []) @ d"
| "written (Truth b) = (if b then js ''yes'' else js ''no'')"
| "written (Sequence t) = js ''['' @ t @ js '']''"

fun binding :: "jsstring \<Rightarrow> literal \<Rightarrow> jsstring" where
  "binding x (TextDQ t) = js ''const std::string '' @ x @ js '' = \"'' @ t @ js ''\";''"
| "binding x (TextSQ t) = js ''const std::string '' @ x @ js '' = \"'' @ t @ js ''\";''"
| "binding x (Decimal a b) = js ''const double '' @ x @ js '' = '' @ a @ js ''.'' @ b @ js '';''"
| "binding x (Whole negative d) =
     js ''const int '' @ x @ js '' = '' @ (if negative then js ''-'' else []) @ d @ js '';''"
| "binding x (Truth b) =
     js ''const bool '' @ x @ js '' = '' @ (if b then js ''true'' else js ''false'') @ js '';''"
| "binding x (Sequence t) = js ''const auto '' @ x @ js '' = std::vector<int>{'' @ t @ js ''};''"

definition mutable_binding :: "jsstring \<Rightarrow> literal \<Rightarrow> jsstring" where
  "mutable_binding x l = js ''auto '' @ x @ js '' = '' @ translateExpr (written l) @ js '';''"

text \<open>The proper suffixes of a text, from the longest to the empty one.\<close>

fun shorter :: "'a list \<Rightarrow> 'a list list" where
  "shorter [] = []"
| "shorter (x # xs) = xs # shorter xs"

text \<open>
  The text that an atom of a regular expression can take: when an expression matches,
  the text it has consumed is the concatenation of one such text per atom.
\<close>

fun conforms :: "atom \<Rightarrow> jsstring \<Rightarrow> bool" where
  "conforms (One c) seg = (length seg = 1 \<and> list_all (in_cls c) seg)"
| "conforms (Opt c) seg = (length seg \<le> 1 \<and> list_all (in_cls c) seg)"
| "conforms (Star c) seg = list_all (in_cls c) seg"
| "conforms (Plus c) seg = (seg \<noteq> [] \<and> list_all (in_cls c) seg)"
| "conforms (Str k) seg = (seg = k)"
| "conforms (Alt a b) seg = (seg = a \<or> seg = b)"
| "conforms Bol seg = (seg = [])"
| "conforms Eol seg = (seg = [])"
| "conforms WB seg = (seg = [])"
| "conforms GOpen seg = (seg = [])"
| "conforms GClose seg = (seg = [])"

text \<open>
  The substitutions of the two rewriters read word by word. A text is a sequence of
  maximal runs of word characters, separated by other characters. \<open>word_subst K Y\<close>
  replaces every run that is the word \<open>K\<close> by \<open>Y\<close>; \<open>not_subst\<close> replaces
  every run \<^verbatim>\<open>not\<close> that white space follows, together with that white space, by
  \<^verbatim>\<open>!\<close>. The lemmas below show that these are what the global replacements of
  \<^verbatim>\<open>/\bK\b/g\<close> and \<^verbatim>\<open>/\bnot\s+/g\<close> compute.
\<close>

function word_subst :: "jsstring \<Rightarrow> jsstring \<Rightarrow> jsstring \<Rightarrow> jsstring" where
  "word_subst K Y [] = []"
| "word_subst K Y (c # cs) =
     (if is_word c
      then (if takeWhile is_word (c # cs) = K then Y else takeWhile is_word (c # cs)) @
           word_subst K Y (dropWhile is_word (c # cs))
      else c # word_subst K Y cs)"
  by pat_completeness auto
termination
  by (relation "measure (\<lambda>(K, Y, s). length s)") (auto simp: length_dropWhile_le less_Suc_eq_le)

function not_subst :: "jsstring \<Rightarrow> jsstring" where
  "not_subst [] = []"
| "not_subst (c # cs) =
     (if is_word c
      then (if takeWhile is_word (c # cs) = js ''not'' \<and> dropWhile is_word (c # cs) \<noteq> [] \<and>
               is_space (hd (dropWhile is_word (c # cs)))
            then js ''!'' @ not_subst (dropWhile is_space (dropWhile is_word (c # cs)))
            else takeWhile is_word (c # cs) @ not_subst (dropWhile is_word (c # cs)))
      else c # not_subst cs)"
  by pat_completeness auto
termination
  by (relation "measure length")
     (auto simp: length_dropWhile_le less_Suc_eq_le intro: le_trans [OF length_dropWhile_le])

definition nonword_before :: "nat option \<Rightarrow> bool" where
  "nonword_before p \<longleftrightarrow> (case p of None \<Rightarrow> True | Some c \<Rightarrow> \<not> is_word c)"

definition nonword_start :: "jsstring \<Rightarrow> bool" where
  "nonword_start s \<longleftrightarrow> (case s of [] \<Rightarrow> True | c # _ \<Rightarrow> \<not> is_word c)"

text \<open>The words that the expression rewriter replaces.\<close>

definition rewritten_words :: "jsstring list" where
  "rewritten_words = [js ''yes'', js ''no'', js ''and'', js ''or'', js ''not'', js ''mod'', js ''is'']"

section \<open>Evaluation of the model on concrete texts\<close>

text \<open>
  The second alternative of a backtracking choice is looked at only when the first has
  failed, and the definitions below are unfolded to run the model on a concrete text.
\<close>

lemma orelse_simps [simp]: "orelse (Some x) b = Some x" "orelse None b = b"
  by (simp_all add: orelse_def)

lemma orelse_cong [cong]: "a = a' \<Longrightarrow> orelse a b = orelse a' b"
  by simp

lemmas char_defs = js_def is_space_def is_word_def is_digit_def is_line_terminator_def

text \<open>
  Literal text is compared with a text only once that text is known up to its first
  code unit, so that a line with an unknown identifier in front is left to the lemmas
  about identifiers.
\<close>

lemma startsWith_simps [simp]:
  "startsWith s [] = True"
  "startsWith [] (c # cs) = False"
  "startsWith (y # ys) (c # cs) = (y = c \<and> startsWith ys cs)"
  by (auto simp: startsWith_def)

lemma rmatch_Str_Nil: "rmatch (Str k # r) p [] =
    (if startsWith [] k then map_option ((#) k) (rmatch r (after p k) (drop (length k) [])) else None)"
  by (rule rmatch.simps)

lemma rmatch_Str_Cons: "rmatch (Str k # r) p (y # ys) =
    (if startsWith (y # ys) k then map_option ((#) k) (rmatch r (after p k) (drop (length k) (y # ys))) else None)"
  by (rule rmatch.simps)

lemma rmatch_Alt_Nil: "rmatch (Alt a b # r) p [] =
    orelse
      (if startsWith [] a then map_option ((#) a) (rmatch r (after p a) (drop (length a) [])) else None)
      (if startsWith [] b then map_option ((#) b) (rmatch r (after p b) (drop (length b) [])) else None)"
  by (rule rmatch.simps)

lemma rmatch_Alt_Cons: "rmatch (Alt a b # r) p (y # ys) =
    orelse
      (if startsWith (y # ys) a then map_option ((#) a) (rmatch r (after p a) (drop (length a) (y # ys))) else None)
      (if startsWith (y # ys) b then map_option ((#) b) (rmatch r (after p b) (drop (length b) (y # ys))) else None)"
  by (rule rmatch.simps)

declare rmatch.simps(15,16) [simp del]

declare rmatch_Str_Nil [simp] rmatch_Str_Cons [simp] rmatch_Alt_Nil [simp] rmatch_Alt_Cons [simp]

lemmas engine_defs = js_match_def skip_def cons_first_def after_def word_boundary_def
  replaceAll_def split_re_def trim_def trimStart_def trimEnd_def split_lines_def

lemmas rx_defs = rx_to_start_def rx_to_def_def rx_struct_def rx_field_def rx_method_def
  rx_say_dq_def rx_say_sq_def rx_say_def rx_print_dq_def rx_print_def
  rx_is_dq_def rx_is_sq_def rx_is_double_def rx_is_int_def rx_is_bool_def rx_is_list_def
  rx_is_mutable_def rx_is_generic_def rx_becomes_def rx_return_def rx_if_def rx_otherwise_if_def
  rx_for_range_def rx_for_in_def rx_repeat_def rx_while_def rx_pause_def rx_write_def rx_read_def
  rx_ask_def rx_sqrt_def rx_abs_def rx_pow_def rx_random_def rx_call_def rx_bare_call_def
  rx_and_sep_def rx_comma_def
  rx_yes_def rx_no_def rx_and_def rx_or_def rx_not_def rx_mod_def rx_is_def rx_is_not_def

lemmas rule_defs = rule_say_dq_def rule_say_sq_def rule_say_def rule_print_dq_def rule_print_def
  rule_is_dq_def rule_is_sq_def rule_is_double_def rule_is_int_def rule_is_bool_def rule_is_list_def
  rule_is_mutable_def rule_is_generic_def rule_becomes_def rule_return_def rule_return_bare_def
  rule_if_def rule_otherwise_if_def rule_otherwise_def rule_for_range_def rule_for_in_def
  rule_repeat_def rule_while_def rule_skip_def rule_stop_def rule_pause_def rule_write_def
  rule_read_def rule_ask_def rule_sqrt_def rule_abs_def rule_pow_def rule_random_def
  rule_call_def rule_bare_call_def call_keywords_def

lemmas step_defs = step_def rule_to_start_def rule_to_def_def dedent_close_def rule_struct_def
  rule_field_def struct_close_def rule_method_def emit_def fallback_def set_add_def params_def
  typeMap_def object_prototype_functions_def statement_def statement_rules_def
  translate_state_def finish_def initial_def translateExpr_def translateCond_def

lemmas eval_defs = char_defs engine_defs rx_defs rule_defs step_defs Let_def

section \<open>The block reconciler is append-only\<close>

declare closeBlocks_fill.simps [simp del]

lemma closeBlocks_scan_eq: "closeBlocks_scan ls depth out = (depth + net_depth ls, out @ ls)"
  by (induction ls arbitrary: depth out) (simp_all add: net_depth_def)

lemma closeBlocks_fill_eq: "closeBlocks_fill depth out = out @ replicate (nat depth) (js ''    }'')"
proof (induction depth out rule: closeBlocks_fill.induct)
  case (1 depth out)
  show ?case
  proof (cases "depth > 0")
    case True
    then have "nat depth = Suc (nat (depth - 1))" by simp
    with True 1 show ?thesis
      by (subst closeBlocks_fill.simps) (simp add: replicate_append_same)
  next
    case False
    then show ?thesis by (subst closeBlocks_fill.simps) simp
  qed
qed

lemma closeBlocks_eq: "closeBlocks lines = lines @ replicate (nat (net_depth lines)) (js ''    }'')"
  by (simp add: closeBlocks_def closeBlocks_scan_eq closeBlocks_fill_eq)

lemma net_depth_append: "net_depth (xs @ ys) = net_depth xs + net_depth ys"
  by (simp add: net_depth_def)

lemma closer_depth: "opens (js ''    }'') = 0" "closes (js ''    }'') = 1"
  by (simp_all add: opens_def closes_def js_def)

lemma net_depth_replicate_closer: "net_depth (replicate n (js ''    }'')) = - int n"
  by (induction n) (simp_all add: net_depth_def closer_depth)

lemma net_depth_closeBlocks: "net_depth (closeBlocks lines) = min 0 (net_depth lines)"
  by (simp add: closeBlocks_eq net_depth_append net_depth_replicate_closer)

text \<open>
  C10. For every list of lines, \<^verbatim>\<open>closeBlocks\<close> returns the list itself, in
  order, followed by \<open>max 0 d\<close> closing lines \<^verbatim>\<open>"    }"\<close>, where \<open>d\<close> is the net
  depth of the list. When \<open>d\<close> is negative nothing is appended and the net depth of
  the result is still negative.
\<close>

theorem closeBlocks_append_only:
  "closeBlocks lines = lines @ replicate (nat (max 0 (net_depth lines))) (js ''    }'') \<and>
   (net_depth lines < 0 \<longrightarrow> closeBlocks lines = lines \<and> net_depth (closeBlocks lines) < 0)"
  by (simp add: closeBlocks_eq net_depth_closeBlocks max_def)

theorem closeBlocks_append_only_witness:
  "net_depth [js ''}''] < 0 \<and> closeBlocks [js ''}''] = [js ''}''] \<and> net_depth (closeBlocks [js ''}'']) < 0"
proof -
  have h: "net_depth [js ''}''] < 0" by (simp add: net_depth_def opens_def closes_def js_def)
  with closeBlocks_append_only [of "[js ''}'']"] show ?thesis by blast
qed

section \<open>The effect of one line\<close>

lemma rule_to_start_effect: "rule_to_start line s = Some s' \<Longrightarrow> s' = s\<lparr>inFunction := False\<rparr>"
  by (auto simp: rule_to_start_def split: option.splits)

lemma rule_to_def_effect:
  "rule_to_def line s = Some s' \<Longrightarrow>
     \<exists>d n. s' = s\<lparr>declarations := declarations s @ [d], inFunction := True, currentFunc := Some n\<rparr>"
  by (auto simp: rule_to_def_def Let_def split: option.splits list.splits)

lemma rule_struct_effect:
  "rule_struct line s = Some s' \<Longrightarrow>
     \<exists>h n. s' = s\<lparr>currentStruct := Some n, structs := structs s @ [h], inStruct := True\<rparr>"
  by (auto simp: rule_struct_def split: option.splits list.splits)

lemma rule_field_effect:
  "rule_field line s = Some s' \<Longrightarrow> \<exists>f. s' = s\<lparr>structs := structs s @ [f]\<rparr>"
  by (auto simp: rule_field_def split: option.splits list.splits if_splits)

lemma rule_method_effect:
  "rule_method line s = Some s' \<Longrightarrow>
     \<exists>d. s' = s\<lparr>declarations := declarations s @ [d], inFunction := True\<rparr>"
  by (auto simp: rule_method_def Let_def split: option.splits list.splits)

lemma step_cases:
  "step s raw = s \<or>
   step s raw = s\<lparr>inFunction := False\<rparr> \<or>
   (\<exists>d n. step s raw = s\<lparr>declarations := declarations s @ [d], inFunction := True, currentFunc := Some n\<rparr>) \<or>
   (\<exists>h n. step s raw = (dedent_close (indent_of raw) (trim raw) s)
        \<lparr>currentStruct := Some n,
         structs := structs (dedent_close (indent_of raw) (trim raw) s) @ [h], inStruct := True\<rparr>) \<or>
   (\<exists>f. step s raw = (dedent_close (indent_of raw) (trim raw) s)
        \<lparr>structs := structs (dedent_close (indent_of raw) (trim raw) s) @ [f]\<rparr>) \<or>
   (\<exists>d. step s raw = (pre_closed s raw)
        \<lparr>declarations := declarations (pre_closed s raw) @ [d], inFunction := True\<rparr>) \<or>
   (\<exists>e. statement (js ''    '') (trim raw) = Some e \<and> step s raw = emit (inFunction s) e (pre_closed s raw)) \<or>
   (statement (js ''    '') (trim raw) = None \<and>
    step s raw = emit (inFunction s) (fallback (js ''    '') (trim raw)) (pre_closed s raw))"
  unfolding step_def Let_def indent_of_def [symmetric] pre_closed_def [symmetric]
  by (auto simp: pre_closed_def split: option.splits
           dest!: rule_to_start_effect rule_to_def_effect rule_struct_effect rule_field_effect rule_method_effect)

lemma step_unmatched:
  "no_rule_matches s raw \<Longrightarrow>
     step s raw = emit (inFunction s) ([], js ''    // [flow] '' @ trim raw) (pre_closed s raw)"
  unfolding step_def no_rule_matches_def Let_def indent_of_def [symmetric]
  by (simp add: pre_closed_def fallback_def js_def)

subsection \<open>Lines already emitted stay\<close>

lemma dedent_close_fields [simp]:
  "includeSet (dedent_close i l s) = includeSet s"
  "bodyLines (dedent_close i l s) = bodyLines s"
  "structs (dedent_close i l s) = structs s"
  "\<exists>d. declarations (dedent_close i l s) = declarations s @ d"
  by (simp_all add: dedent_close_def)

lemma struct_close_fields [simp]:
  "includeSet (struct_close i s) = includeSet s"
  "bodyLines (struct_close i s) = bodyLines s"
  "declarations (struct_close i s) = declarations s"
  by (simp_all add: struct_close_def)

lemma pre_closed_fields [simp]:
  "includeSet (pre_closed s raw) = includeSet s"
  "bodyLines (pre_closed s raw) = bodyLines s"
  "\<exists>d. declarations (pre_closed s raw) = declarations s @ d"
  by (simp_all add: pre_closed_def)

lemma emit_fields:
  "includeSet (emit t e s) = foldl (\<lambda>incs i. set_add i incs) (includeSet s) (fst e)"
  "bodyLines (emit t e s) = (if t then bodyLines s else bodyLines s @ [snd e])"
  "declarations (emit t e s) = (if t then declarations s @ [snd e] else declarations s)"
  by (simp_all add: emit_def Let_def)

lemma step_bodyLines: "\<exists>b. bodyLines (step s raw) = bodyLines s @ b"
  using step_cases [of s raw] by (auto simp: emit_fields)

lemma step_declarations: "\<exists>d. declarations (step s raw) = declarations s @ d"
proof -
  obtain d0 where d0: "declarations (dedent_close (indent_of raw) (trim raw) s) = declarations s @ d0"
    using dedent_close_fields(4) by blast
  obtain d1 where d1: "declarations (pre_closed s raw) = declarations s @ d1"
    using pre_closed_fields(3) by blast
  show ?thesis
    using step_cases [of s raw] by (auto simp: emit_fields d0 d1)
qed

lemma step_includeSet:
  "includeSet (step s raw) = includeSet s \<or>
   (\<exists>e. statement (js ''    '') (trim raw) = Some e \<and>
        includeSet (step s raw) = foldl (\<lambda>incs i. set_add i incs) (includeSet s) (fst e))"
  using step_cases [of s raw] by (auto simp: emit_fields fallback_def)

lemma foldl_step_bodyLines: "\<exists>b. bodyLines (foldl step s raws) = bodyLines s @ b"
proof (induction raws arbitrary: s)
  case Nil
  then show ?case by simp
next
  case (Cons raw raws)
  obtain b1 where "bodyLines (step s raw) = bodyLines s @ b1" using step_bodyLines by blast
  moreover obtain b2 where "bodyLines (foldl step (step s raw) raws) = bodyLines (step s raw) @ b2"
    using Cons.IH by blast
  ultimately show ?case by simp
qed

lemma foldl_step_declarations: "\<exists>d. declarations (foldl step s raws) = declarations s @ d"
proof (induction raws arbitrary: s)
  case Nil
  then show ?case by simp
next
  case (Cons raw raws)
  obtain d1 where "declarations (step s raw) = declarations s @ d1" using step_declarations by blast
  moreover obtain d2 where "declarations (foldl step (step s raw) raws) = declarations (step s raw) @ d2"
    using Cons.IH by blast
  ultimately show ?case by simp
qed

lemma finish_fields:
  "includeSet (finish s) = includeSet s"
  "bodyLines (finish s) = bodyLines s"
  "\<exists>d. declarations (finish s) = declarations s @ d"
  by (simp_all add: finish_def Let_def)

subsection \<open>Include directives\<close>

lemma first_match_SomeD: "first_match fs x = Some y \<Longrightarrow> \<exists>f \<in> set fs. f x = Some y"
  by (induction fs) (auto split: option.splits)

lemma statement_includes:
  assumes "statement pad line = Some e"
  shows "set (fst e) \<subseteq> set extra_includes"
proof -
  from assms obtain f where f: "f \<in> set (statement_rules pad)" "f line = Some e"
    unfolding statement_def by (blast dest: first_match_SomeD)
  then show ?thesis
    unfolding statement_rules_def
    by (auto simp: rule_defs extra_includes_def Let_def split: option.splits list.splits if_splits)
qed


lemma set_add_props:
  "distinct xs \<Longrightarrow> distinct (set_add x xs)"
  "\<exists>extra. set_add x xs = xs @ extra \<and> set extra \<subseteq> {x}"
  by (auto simp: set_add_def)

lemma foldl_set_add_props:
  "(distinct xs \<longrightarrow> distinct (foldl (\<lambda>incs i. set_add i incs) xs e)) \<and>
   (\<exists>extra. foldl (\<lambda>incs i. set_add i incs) xs e = xs @ extra \<and> set extra \<subseteq> set e)"
proof (induction e arbitrary: xs)
  case Nil
  then show ?case by simp
next
  case (Cons i e)
  obtain x1 where x1: "set_add i xs = xs @ x1" "set x1 \<subseteq> {i}"
    using set_add_props(2) by blast
  obtain x2 where x2: "foldl (\<lambda>incs i. set_add i incs) (set_add i xs) e = set_add i xs @ x2" "set x2 \<subseteq> set e"
    using Cons.IH by blast
  have "foldl (\<lambda>incs i. set_add i incs) xs (i # e) = xs @ (x1 @ x2)" "set (x1 @ x2) \<subseteq> set (i # e)"
    using x1 x2 by auto
  moreover have "distinct xs \<longrightarrow> distinct (foldl (\<lambda>incs i. set_add i incs) xs (i # e))"
    using Cons.IH [of "set_add i xs"] set_add_props(1) [of xs i] by simp
  ultimately show ?case by blast
qed

lemma step_includes_inv:
  assumes "distinct (includeSet s)" "includeSet s = base @ extra" "set extra \<subseteq> set extra_includes"
  shows "distinct (includeSet (step s raw)) \<and>
         (\<exists>extra'. includeSet (step s raw) = base @ extra' \<and> set extra' \<subseteq> set extra_includes)"
proof -
  from step_includeSet [of s raw] show ?thesis
  proof
    assume "includeSet (step s raw) = includeSet s"
    with assms show ?thesis by auto
  next
    assume "\<exists>e. statement (js ''    '') (trim raw) = Some e \<and>
      includeSet (step s raw) = foldl (\<lambda>incs i. set_add i incs) (includeSet s) (fst e)"
    then obtain e where e: "statement (js ''    '') (trim raw) = Some e"
      "includeSet (step s raw) = foldl (\<lambda>incs i. set_add i incs) (includeSet s) (fst e)" by blast
    from foldl_set_add_props [of "includeSet s" "fst e"] obtain x where
      x: "distinct (foldl (\<lambda>incs i. set_add i incs) (includeSet s) (fst e))"
         "foldl (\<lambda>incs i. set_add i incs) (includeSet s) (fst e) = includeSet s @ x" "set x \<subseteq> set (fst e)"
      using assms(1) by blast
    have "set x \<subseteq> set extra_includes" using x(3) statement_includes [OF e(1)] by blast
    then have "includeSet (step s raw) = base @ (extra @ x) \<and> set (extra @ x) \<subseteq> set extra_includes"
      using e(2) x(2) assms by simp
    with x(1) e(2) show ?thesis by metis
  qed
qed

lemma foldl_step_includes_inv:
  assumes "distinct (includeSet s)" "includeSet s = base @ extra" "set extra \<subseteq> set extra_includes"
  shows "distinct (includeSet (foldl step s raws)) \<and>
         (\<exists>extra'. includeSet (foldl step s raws) = base @ extra' \<and> set extra' \<subseteq> set extra_includes)"
  using assms
proof (induction raws arbitrary: s extra)
  case Nil
  then show ?case by auto
next
  case (Cons raw raws)
  from step_includes_inv [OF Cons.prems] obtain extra' where
    "distinct (includeSet (step s raw))" "includeSet (step s raw) = base @ extra'"
    "set extra' \<subseteq> set extra_includes" by blast
  from Cons.IH [OF this] show ?case by simp
qed

lemma distinct_initial: "distinct (includeSet initial)"
  by (simp add: initial_def js_def)

lemma translate_state_includes:
  "distinct (includeSet (translate_state flowCode)) \<and>
   (\<exists>extra. includeSet (translate_state flowCode) = includeSet initial @ extra \<and>
            set extra \<subseteq> set extra_includes)"
  unfolding translate_state_def finish_fields
  by (rule foldl_step_includes_inv [where extra = "[]"]) (simp_all add: distinct_initial)

lemma assemble_eq:
  "assemble maxArgs s = (if spread_fits maxArgs s then Inr (sections s) else Inl RangeError)"
  by (simp add: assemble_def push_spread_def spread_fits_def sections_def Let_def)

lemma translateFlowToCpp_eq:
  "translateFlowToCpp maxArgs flowCode =
     (if spread_fits maxArgs (translate_state flowCode)
      then Inr (join [10] (sections (translate_state flowCode))) else Inl RangeError)"
  by (simp add: translateFlowToCpp_def assemble_eq)

lemma translateFlowToCpp_InrD:
  "translateFlowToCpp maxArgs flowCode = Inr out \<Longrightarrow>
     spread_fits maxArgs (translate_state flowCode) \<and> out = join [10] (sections (translate_state flowCode))"
  by (auto simp: translateFlowToCpp_eq split: if_splits)

section \<open>The order of the assembly\<close>

lemma first_seen_snoc:
  "first_seen (xs @ [x]) = (if x \<in> set xs then first_seen xs else first_seen xs @ [x])"
  by (simp add: first_seen_def)

lemma set_first_seen [simp]: "set (first_seen xs) = set xs"
  by (simp add: first_seen_def)

lemma first_seen_distinct: "distinct xs \<Longrightarrow> first_seen xs = xs"
  by (simp add: first_seen_def distinct_remdups_id)

lemma foldl_set_add_first_seen:
  "distinct xs \<Longrightarrow> foldl (\<lambda>incs i. set_add i incs) xs e = first_seen (xs @ e)"
proof (induction e rule: rev_induct)
  case Nil
  then show ?case by (simp add: first_seen_distinct)
next
  case (snoc i e)
  then show ?case
    using first_seen_snoc [of "xs @ e" i] by (simp add: set_add_def)
qed

lemma first_seen_absorb: "first_seen (first_seen xs @ ys) = first_seen (xs @ ys)"
proof (induction ys rule: rev_induct)
  case Nil
  show ?case by (simp add: first_seen_distinct first_seen_def)
next
  case (snoc y ys)
  show ?case
    using first_seen_snoc [of "first_seen xs @ ys" y] first_seen_snoc [of "xs @ ys" y] snoc
    by simp
qed

lemma step_line_requests:
  "includeSet (step s raw) = foldl (\<lambda>incs i. set_add i incs) (includeSet s) (line_requests s raw)"
  unfolding step_def line_requests_def Let_def indent_of_def [symmetric] pre_closed_def [symmetric]
  by (auto simp: pre_closed_def emit_fields fallback_def split: option.splits
           dest!: rule_to_start_effect rule_to_def_effect rule_struct_effect rule_field_effect rule_method_effect)

lemma foldl_step_requests:
  "distinct (includeSet s) \<Longrightarrow>
     includeSet (foldl step s raws) = first_seen (includeSet s @ requests s raws)"
proof (induction raws arbitrary: s)
  case Nil
  then show ?case by (simp add: first_seen_distinct)
next
  case (Cons raw raws)
  have st: "includeSet (step s raw) = first_seen (includeSet s @ line_requests s raw)"
    using Cons.prems by (simp add: step_line_requests foldl_set_add_first_seen)
  then have "distinct (includeSet (step s raw))" by (simp add: first_seen_def)
  from Cons.IH [OF this] show ?case
    by (simp add: st first_seen_absorb)
qed

lemma translate_state_requests:
  "includeSet (translate_state flowCode) =
     first_seen (includeSet initial @ requests initial (split_lines flowCode))"
  unfolding translate_state_def finish_fields
  by (rule foldl_step_requests) (rule distinct_initial)

text \<open>
  Where C8 holds. Whenever the translator returns, its output is the lines, joined by
  line feeds, of: the include directives, an empty line, the fixed comment, an empty
  line, the struct lines, the reconciled declarations, \<^verbatim>\<open>int main() {\<close>, the
  reconciled body lines, \<^verbatim>\<open>    return 0;\<close> and the closing delimiter, in this
  order; it raises exactly when one of the three spread lists is longer than the engine
  allows. The include directives are the six initial ones followed by the directives
  that the lines of the text ask for, each once, at the place of its first request.
\<close>

theorem assembly_order:
  "translateFlowToCpp maxArgs flowCode =
     (if spread_fits maxArgs (translate_state flowCode)
      then Inr (join [10]
             (includeSet (translate_state flowCode) @ [[], phi_comment, []] @
              structs (translate_state flowCode) @
              closeBlocks (declarations (translate_state flowCode)) @
              [js ''int main() {''] @
              closeBlocks (bodyLines (translate_state flowCode)) @
              [js ''    return 0;'', js ''}'']))
      else Inl RangeError) \<and>
   includeSet (translate_state flowCode) =
     first_seen (includeSet initial @ requests initial (split_lines flowCode)) \<and>
   distinct (includeSet (translate_state flowCode))"
  using translate_state_includes [of flowCode] translate_state_requests [of flowCode]
  by (simp add: translateFlowToCpp_eq sections_def)

text \<open>
  The directives of a text that asks for the file stream twice, with a pause between:
  each directive stands once, where it was first asked for.
\<close>

lemma include_order_example:
  "includeSet (translate_state (js ''write \"a\" to \"f\"'' @ [10] @ js ''pause 5'' @ [10] @
                                js ''a is read \"f\"'' @ [10] @ js ''pause 7'')) =
     includeSet initial @ [js ''#include <fstream>'', js ''#include <thread>'', js ''#include <chrono>'']"
  by (simp add: eval_defs)

text \<open>
  The statement that ends a function block. In a state inside a function, a line at
  indentation zero that is no header and does not start with \<^verbatim>\<open>to \<close> closes
  the function block, and its statement is pushed behind the closing delimiter, to the
  declarations; the body lines are left as they are.
\<close>

lemma first_statement_after_function:
  assumes "inFunction s" "indent_of raw = 0" "trim raw \<noteq> []"
      and "\<not> startsWith (trim raw) (js ''//'')" "\<not> startsWith (trim raw) (js ''#'')"
      and "\<not> startsWith (trim raw) (js ''to '')"
      and "rule_to_start (trim raw) s = None" "rule_to_def (trim raw) s = None"
      and "\<And>s'. rule_struct (trim raw) s' = None" "\<And>s'. rule_field (trim raw) s' = None"
      and "\<And>s'. rule_method (trim raw) s' = None"
      and "statement (js ''    '') (trim raw) = Some e"
  shows "declarations (step s raw) = declarations s @ [js ''}'' @ [10], snd e]"
    and "bodyLines (step s raw) = bodyLines s"
    and "\<not> inFunction (step s raw)"
proof -
  have "step s raw = emit (inFunction s) e (pre_closed s raw)"
    unfolding step_def Let_def indent_of_def [symmetric]
    using assms by (simp add: pre_closed_def)
  then show "declarations (step s raw) = declarations s @ [js ''}'' @ [10], snd e]"
    and "bodyLines (step s raw) = bodyLines s"
    and "\<not> inFunction (step s raw)"
    using assms(1,2,3,6)
    by (simp_all add: emit_def pre_closed_def dedent_close_def struct_close_def Let_def)
qed

text \<open>
  The smallest text that shows where the statement behind a function body goes: a
  function of one line and one statement at indentation zero. The engine of the
  examples takes 100000 arguments in a call, more than any of their lists has lines.
\<close>

lemma after_function_state:
  "declarations (translate_state (js ''to f:'' @ [10] @ js ''    say 1'' @ [10] @ js ''say 2'')) =
     [js ''auto f() {'', js ''    std::cout << 1 << std::endl;'', js ''}'' @ [10],
      js ''    std::cout << 2 << std::endl;'']"
  "bodyLines (translate_state (js ''to f:'' @ [10] @ js ''    say 1'' @ [10] @ js ''say 2'')) = []"
  "structs (translate_state (js ''to f:'' @ [10] @ js ''    say 1'' @ [10] @ js ''say 2'')) = []"
  "includeSet (translate_state (js ''to f:'' @ [10] @ js ''    say 1'' @ [10] @ js ''say 2'')) =
     includeSet initial"
  by (simp_all add: eval_defs)

lemma statement_after_function_example:
  "translateFlowToCpp 100000 (js ''to f:'' @ [10] @ js ''    say 1'' @ [10] @ js ''say 2'') =
     Inr (join [10]
       (includeSet initial @
        [[], phi_comment, [],
         js ''auto f() {'', js ''    std::cout << 1 << std::endl;'', js ''}'' @ [10],
         js ''    std::cout << 2 << std::endl;'',
         js ''int main() {'', js ''    return 0;'', js ''}'']))"
  unfolding translateFlowToCpp_eq spread_fits_def sections_def after_function_state
  by (simp add: closeBlocks_eq net_depth_def opens_def closes_def js_def)

lemma fibonacci_state:
  "declarations (translate_state flow_idea_fibonacci) =
     [js ''auto fibonacci(auto n) {'', js ''    if (n <= 1) {'', js ''    return n;'',
      js ''    return fibonacci n - 1 && n - 2;'', js ''}'' @ [10],
      js ''    const auto result = fibonacci 10;'']"
  "bodyLines (translate_state flow_idea_fibonacci) = [js ''    std::cout << result << std::endl;'']"
  "structs (translate_state flow_idea_fibonacci) = []"
  "includeSet (translate_state flow_idea_fibonacci) = includeSet initial"
  by (simp_all add: flow_idea_fibonacci_def eval_defs)

text \<open>
  C8. The target list of a statement is chosen at the start of the iteration, before the
  function block is closed at a line of indentation zero. So the first top-level
  statement after a function body is pushed to the declarations, behind the closing
  delimiter of the function: in the output it stands before \<^verbatim>\<open>int main() {\<close>,
  outside every function, and the entry point does not wrap it. In the program of the
  server's own list the binding of \<^verbatim>\<open>result\<close> is such a statement; the
  statement after it is in the body.
\<close>

theorem statement_after_function_is_outside_main:
  "declarations (translate_state flow_idea_fibonacci) =
     [js ''auto fibonacci(auto n) {'', js ''    if (n <= 1) {'', js ''    return n;'',
      js ''    return fibonacci n - 1 && n - 2;'', js ''}'' @ [10],
      js ''    const auto result = fibonacci 10;''] \<and>
   bodyLines (translate_state flow_idea_fibonacci) = [js ''    std::cout << result << std::endl;''] \<and>
   translateFlowToCpp 100000 flow_idea_fibonacci =
     Inr (join [10]
       (includeSet initial @
        [[], phi_comment, [],
         js ''auto fibonacci(auto n) {'', js ''    if (n <= 1) {'', js ''    return n;'',
         js ''    return fibonacci n - 1 && n - 2;'', js ''}'' @ [10],
         js ''    const auto result = fibonacci 10;'', js ''    }'',
         js ''int main() {'', js ''    std::cout << result << std::endl;'', js ''    return 0;'', js ''}'']))"
  unfolding translateFlowToCpp_eq spread_fits_def sections_def fibonacci_state
  by (simp add: closeBlocks_eq net_depth_def opens_def closes_def js_def)

section \<open>The depth of the assembled output\<close>

lemma opens_append [simp]: "opens (a @ b) = opens a + opens b"
  by (simp add: opens_def)

lemma closes_append [simp]: "closes (a @ b) = closes a + closes b"
  by (simp add: closes_def)

lemma opens_join: "opens (join [10] parts) = sum_list (map opens parts)"
  by (induction "[10::nat]" parts rule: join.induct) (simp_all add: opens_def)

lemma closes_join: "closes (join [10] parts) = sum_list (map closes parts)"
  by (induction "[10::nat]" parts rule: join.induct) (simp_all add: closes_def)

lemma net_depth_join: "opens (join [10] parts) - closes (join [10] parts) = net_depth parts"
  by (simp add: opens_join closes_join net_depth_def sum_list_subtractf)

lemma net_depth_brace_free: "\<forall>l \<in> set ls. brace_free l \<Longrightarrow> net_depth ls = 0"
  by (induction ls) (simp_all add: net_depth_def brace_free_def)

lemma includes_brace_free: "\<forall>l \<in> set (includeSet initial @ extra_includes). brace_free l"
  by (simp add: initial_def extra_includes_def brace_free_def opens_def closes_def js_def)

lemma net_depth_includes: "net_depth (includeSet (translate_state flowCode)) = 0"
proof -
  obtain extra where "includeSet (translate_state flowCode) = includeSet initial @ extra"
    "set extra \<subseteq> set extra_includes"
    using translate_state_includes by blast
  with includes_brace_free show ?thesis
    by (intro net_depth_brace_free) auto
qed

lemma net_depth_fixed:
  "net_depth [[], phi_comment, []] = 0" "net_depth [js ''int main() {''] = 1"
  "net_depth [js ''    return 0;'', js ''}''] = - 1"
  by (simp_all add: net_depth_def phi_comment_def opens_def closes_def js_def)

lemma output_depth_eq:
  "opens (join [10] (sections (translate_state flowCode))) -
   closes (join [10] (sections (translate_state flowCode))) =
     net_depth (structs (translate_state flowCode)) +
     min 0 (net_depth (declarations (translate_state flowCode))) +
     min 0 (net_depth (bodyLines (translate_state flowCode)))"
  unfolding net_depth_join sections_def net_depth_append
    net_depth_includes net_depth_fixed net_depth_closeBlocks
  by simp

text \<open>
  C1, as amended. For every input whose struct lines are balanced, the number of
  opening minus the number of closing delimiters of the output that the translator
  returns is the negative part of the net depth of the declarations plus the negative
  part of the net depth of the body lines: \<^verbatim>\<open>closeBlocks\<close> brings a positive
  depth to zero and leaves a negative depth as it is. So the output is balanced
  whenever the struct lines are balanced and neither list closes more delimiters than
  it opens.
\<close>

theorem output_depth:
  assumes "translateFlowToCpp maxArgs flowCode = Inr out"
  shows "(net_depth (structs (translate_state flowCode)) = 0 \<longrightarrow>
            opens out - closes out =
              min 0 (net_depth (declarations (translate_state flowCode))) +
              min 0 (net_depth (bodyLines (translate_state flowCode)))) \<and>
         (net_depth (structs (translate_state flowCode)) = 0 \<and>
          0 \<le> net_depth (declarations (translate_state flowCode)) \<and>
          0 \<le> net_depth (bodyLines (translate_state flowCode)) \<longrightarrow>
            opens out = closes out)"
  using output_depth_eq [of flowCode] translateFlowToCpp_InrD [OF assms] by auto

lemma if_block_state:
  "structs (translate_state (js ''if x:'')) = []"
  "declarations (translate_state (js ''if x:'')) = []"
  "bodyLines (translate_state (js ''if x:'')) = [js ''    if (x) {'']"
  by (simp_all add: eval_defs)

lemma if_block_output:
  "translateFlowToCpp 100000 (js ''if x:'') = Inr (join [10] (sections (translate_state (js ''if x:''))))"
  unfolding translateFlowToCpp_eq spread_fits_def if_block_state
  by (simp add: closeBlocks_eq net_depth_def opens_def closes_def js_def)

theorem output_depth_witness:
  "translateFlowToCpp 100000 (js ''if x:'') = Inr (join [10] (sections (translate_state (js ''if x:'')))) \<and>
   net_depth (structs (translate_state (js ''if x:''))) = 0 \<and>
   0 \<le> net_depth (declarations (translate_state (js ''if x:''))) \<and>
   0 \<le> net_depth (bodyLines (translate_state (js ''if x:''))) \<and>
   opens (join [10] (sections (translate_state (js ''if x:'')))) =
     closes (join [10] (sections (translate_state (js ''if x:''))))"
proof -
  have "net_depth [js ''    if (x) {''] = 1"
    by (simp add: net_depth_def opens_def closes_def js_def)
  with output_depth [OF if_block_output] if_block_output show ?thesis
    by (simp add: if_block_state net_depth_def)
qed

lemma say_brace_state:
  "structs (translate_state (js ''say \"}\"'')) = []"
  "declarations (translate_state (js ''say \"}\"'')) = []"
  "bodyLines (translate_state (js ''say \"}\"'')) = [js ''    std::cout << \"}\" << std::endl;'']"
  "includeSet (translate_state (js ''say \"}\"'')) = includeSet initial"
  by (simp_all add: eval_defs)

lemma say_brace_output:
  "translateFlowToCpp 100000 (js ''say \"}\"'') =
     Inr (join [10] (sections (translate_state (js ''say \"}\"''))))"
  unfolding translateFlowToCpp_eq spread_fits_def say_brace_state
  by (simp add: closeBlocks_eq net_depth_def opens_def closes_def js_def)

text \<open>
  C1 as stated fails: for the one-line program \<^verbatim>\<open>say "}"\<close> the translator
  returns an output with two closing delimiters and one opening delimiter.
\<close>

theorem output_depth_counterexample:
  "map_sum id (\<lambda>out. (opens out, closes out)) (translateFlowToCpp 100000 (js ''say \"}\"'')) = Inr (1, 2)"
  unfolding say_brace_output sections_def say_brace_state
  by (simp add: closeBlocks_eq net_depth_def initial_def phi_comment_def opens_def closes_def js_def)

section \<open>Unrecognized lines\<close>

text \<open>
  Where C2 holds. When a line of the input is matched by no pattern rule in the state
  the loop has reached, the step pushes the comment \<^verbatim>\<open>    // [flow] \<close> followed
  by the trimmed line to the target list and changes nothing else (apart from the two
  closing steps every line passes), and that comment is one of the lines of the output
  whenever the translator returns one. The translator returns an output exactly when
  none of the three spread lists is longer than the engine allows.
\<close>

theorem unrecognized_line_becomes_comment:
  assumes "split_lines flowCode = pre @ raw # post"
      and "no_rule_matches (foldl step initial pre) raw"
  shows "step (foldl step initial pre) raw =
           emit (inFunction (foldl step initial pre)) ([], js ''    // [flow] '' @ trim raw)
             (pre_closed (foldl step initial pre) raw) \<and>
         (spread_fits maxArgs (translate_state flowCode) \<longrightarrow>
            (\<exists>before after.
               translateFlowToCpp maxArgs flowCode =
                 Inr (join [10] (before @ (js ''    // [flow] '' @ trim raw) # after)))) \<and>
         (\<not> spread_fits maxArgs (translate_state flowCode) \<longrightarrow>
            translateFlowToCpp maxArgs flowCode = Inl RangeError)"
proof -
  let ?s = "foldl step initial pre"
  let ?c = "js ''    // [flow] '' @ trim raw"
  have st: "step ?s raw = emit (inFunction ?s) ([], ?c) (pre_closed ?s raw)"
    using assms(2) by (rule step_unmatched)
  have ts: "translate_state flowCode = finish (foldl step (step ?s raw) post)"
    by (simp add: translate_state_def assms(1))
  have "?c \<in> set (sections (translate_state flowCode))"
  proof (cases "inFunction ?s")
    case True
    then have "?c \<in> set (declarations (step ?s raw))" by (simp add: st emit_fields)
    moreover obtain d1 where "declarations (foldl step (step ?s raw) post) = declarations (step ?s raw) @ d1"
      using foldl_step_declarations by blast
    moreover obtain d2 where "declarations (translate_state flowCode) =
        declarations (foldl step (step ?s raw) post) @ d2"
      unfolding ts using finish_fields(3) by blast
    ultimately have "?c \<in> set (declarations (translate_state flowCode))" by simp
    then show ?thesis by (simp add: sections_def closeBlocks_eq)
  next
    case False
    then have "?c \<in> set (bodyLines (step ?s raw))" by (simp add: st emit_fields)
    moreover obtain b1 where "bodyLines (foldl step (step ?s raw) post) = bodyLines (step ?s raw) @ b1"
      using foldl_step_bodyLines by blast
    ultimately have "?c \<in> set (bodyLines (translate_state flowCode))"
      by (simp add: ts finish_fields)
    then show ?thesis by (simp add: sections_def closeBlocks_eq)
  qed
  then obtain before after where "sections (translate_state flowCode) = before @ ?c # after"
    by (auto simp: in_set_conv_decomp)
  then have "spread_fits maxArgs (translate_state flowCode) \<longrightarrow>
      translateFlowToCpp maxArgs flowCode = Inr (join [10] (before @ ?c # after))"
    by (simp add: translateFlowToCpp_eq)
  with st show ?thesis by (auto simp: translateFlowToCpp_eq)
qed

text \<open>
  An unrecognized line inside a function body, between two recognized lines: its comment
  is pushed to the declarations.
\<close>

lemma unrecognized_example:
  "split_lines (js ''to f:'' @ [10] @ js ''    (?)'' @ [10] @ js ''say 1'') =
     [js ''to f:''] @ js ''    (?)'' # [js ''say 1'']"
  "no_rule_matches (foldl step initial [js ''to f:'']) (js ''    (?)'')"
  by (simp_all add: no_rule_matches_def indent_of_def pre_closed_def eval_defs)

lemma unrecognized_example_state:
  "structs (translate_state (js ''to f:'' @ [10] @ js ''    (?)'' @ [10] @ js ''say 1'')) = []"
  "declarations (translate_state (js ''to f:'' @ [10] @ js ''    (?)'' @ [10] @ js ''say 1'')) =
     [js ''auto f() {'', js ''    // [flow] (?)'', js ''}'' @ [10], js ''    std::cout << 1 << std::endl;'']"
  "bodyLines (translate_state (js ''to f:'' @ [10] @ js ''    (?)'' @ [10] @ js ''say 1'')) = []"
  by (simp_all add: eval_defs)

lemma unrecognized_example_fits:
  "spread_fits 100000 (translate_state (js ''to f:'' @ [10] @ js ''    (?)'' @ [10] @ js ''say 1''))"
  unfolding spread_fits_def unrecognized_example_state
  by (simp add: closeBlocks_eq net_depth_def opens_def closes_def js_def)

theorem unrecognized_line_becomes_comment_witness:
  "split_lines (js ''to f:'' @ [10] @ js ''    (?)'' @ [10] @ js ''say 1'') =
     [js ''to f:''] @ js ''    (?)'' # [js ''say 1''] \<and>
   no_rule_matches (foldl step initial [js ''to f:'']) (js ''    (?)'') \<and>
   spread_fits 100000 (translate_state (js ''to f:'' @ [10] @ js ''    (?)'' @ [10] @ js ''say 1'')) \<and>
   step (foldl step initial [js ''to f:'']) (js ''    (?)'') =
     emit (inFunction (foldl step initial [js ''to f:''])) ([], js ''    // [flow] '' @ trim (js ''    (?)''))
       (pre_closed (foldl step initial [js ''to f:'']) (js ''    (?)'')) \<and>
   (\<exists>before after.
      translateFlowToCpp 100000 (js ''to f:'' @ [10] @ js ''    (?)'' @ [10] @ js ''say 1'') =
        Inr (join [10] (before @ (js ''    // [flow] '' @ trim (js ''    (?)'')) # after)))"
  using unrecognized_line_becomes_comment [OF unrecognized_example, of 100000]
    unrecognized_example unrecognized_example_fits
  by blast

text \<open>
  C2. The three lists of lines are passed to \<^verbatim>\<open>push\<close> as spread arguments,
  where the include directives are pushed one at a time: a text with more body lines
  than the engine takes arguments makes the translator raise a \<^verbatim>\<open>RangeError\<close>.
  Such a text is the line \<^verbatim>\<open>x\<close> written \<open>maxArgs + 1\<close> times.
\<close>

lemma split_lines_repeated:
  "split_nl [] (concat (replicate n (js ''x'' @ [10])) @ rest) = replicate n (js ''x'') @ split_nl [] rest"
  by (induction n) (simp_all add: js_def)

lemma step_call_x:
  "\<not> inFunction s \<Longrightarrow> \<not> inStruct s \<Longrightarrow>
     step s (js ''x'') = s\<lparr>bodyLines := bodyLines s @ [js ''    x();'']\<rparr>"
  by (simp add: eval_defs)

lemma foldl_step_call_x:
  "\<not> inFunction s \<Longrightarrow> \<not> inStruct s \<Longrightarrow>
     foldl step s (replicate n (js ''x'')) = s\<lparr>bodyLines := bodyLines s @ replicate n (js ''    x();'')\<rparr>"
proof (induction n arbitrary: s)
  case 0
  then show ?case by simp
next
  case (Suc n)
  then show ?case by (simp add: step_call_x replicate_append_same [symmetric])
qed

lemma repeated_state:
  "translate_state (concat (replicate n (js ''x'' @ [10]))) =
     initial\<lparr>bodyLines := replicate n (js ''    x();'')\<rparr>"
proof -
  have "split_lines (concat (replicate n (js ''x'' @ [10]))) = replicate n (js ''x'') @ [[]]"
    using split_lines_repeated [of n "[]"] by (simp add: split_lines_def)
  moreover have "\<not> inFunction initial" "\<not> inStruct initial" "bodyLines initial = []"
    by (simp_all add: initial_def)
  moreover have "step s [] = s" for s
    by (simp add: step_def trim_def trimStart_def trimEnd_def)
  ultimately show ?thesis
    by (simp add: translate_state_def foldl_step_call_x finish_def)
qed

lemma net_depth_repeated: "net_depth (replicate n (js ''    x();'')) = 0"
  by (induction n) (simp_all add: net_depth_def opens_def closes_def js_def)

theorem long_body_raises:
  "translateFlowToCpp maxArgs (concat (replicate (Suc maxArgs) (js ''x'' @ [10]))) = Inl RangeError"
  unfolding translateFlowToCpp_eq repeated_state
  by (simp add: spread_fits_def closeBlocks_eq net_depth_repeated del: replicate.simps)

section \<open>Translation is a function of the text\<close>


section \<open>The ledger is bounded and first-in first-out\<close>

lemma logIdea_stream:
  "ideaStream (snd (logIdea flow cpp ok out now g)) =
     (if length (ideaStream g) \<ge> 500 then tl (ideaStream g @ [fst (logIdea flow cpp ok out now g)])
      else ideaStream g @ [fst (logIdea flow cpp ok out now g)])"
  by (simp add: logIdea_def Let_def)

lemma logIdea_bounded:
  "length (ideaStream g) \<le> 500 \<Longrightarrow> length (ideaStream (snd (logIdea flow cpp ok out now g))) \<le> 500"
  by (simp add: logIdea_stream)

lemma log_all_bounded:
  "length (ideaStream g) \<le> 500 \<Longrightarrow> length (ideaStream (log_all calls g)) \<le> 500"
proof (induction calls arbitrary: g)
  case Nil
  then show ?case by simp
next
  case (Cons c calls)
  obtain flow cpp ok out now where c: "c = (flow, cpp, ok, out, now)" by (cases c) auto
  from Cons.prems have "length (ideaStream (snd (logIdea flow cpp ok out now g))) \<le> 500"
    by (rule logIdea_bounded)
  then show ?case unfolding c by (simp add: Cons.IH)
qed

text \<open>
  C6. After any sequence of \<^verbatim>\<open>logIdea\<close> calls from the empty ledger, the ledger
  holds at most 500 entries. A call on a ledger of 500 entries removes the oldest entry
  and keeps the others, unchanged and in order, before the new one; a call on a
  shorter ledger removes nothing.
\<close>

theorem ledger_bounded_fifo:
  "length (ideaStream (log_all calls engine_start)) \<le> 500 \<and>
   (length (ideaStream g) = 500 \<longrightarrow>
      ideaStream (snd (logIdea flow cpp ok out now g)) =
        tl (ideaStream g) @ [fst (logIdea flow cpp ok out now g)]) \<and>
   (length (ideaStream g) < 500 \<longrightarrow>
      ideaStream (snd (logIdea flow cpp ok out now g)) =
        ideaStream g @ [fst (logIdea flow cpp ok out now g)])"
proof -
  have "length (ideaStream (log_all calls engine_start)) \<le> 500"
    by (rule log_all_bounded) (simp add: engine_start_def)
  moreover have "length (ideaStream g) = 500 \<Longrightarrow> tl (ideaStream g @ [x]) = tl (ideaStream g) @ [x]" for x
    by (cases "ideaStream g") auto
  ultimately show ?thesis by (simp add: logIdea_stream)
qed


theorem ledger_bounded_fifo_witness:
  "length (ideaStream \<lparr> ideaStream = replicate 500 \<lparr> idea_id = 0, idea_flow = [], idea_cpp = [], idea_success = True, idea_output = [], idea_timestamp = [], idea_phi_pulse = 0 \<rparr>, compilationCount = 500 \<rparr>) = 500 \<and>
   ideaStream (snd (logIdea [] [] True [] [] \<lparr> ideaStream = replicate 500 \<lparr> idea_id = 0, idea_flow = [], idea_cpp = [], idea_success = True, idea_output = [], idea_timestamp = [], idea_phi_pulse = 0 \<rparr>, compilationCount = 500 \<rparr>)) =
     tl (replicate 500 \<lparr> idea_id = 0, idea_flow = [], idea_cpp = [], idea_success = True, idea_output = [], idea_timestamp = [], idea_phi_pulse = 0 \<rparr>)
       @ [fst (logIdea [] [] True [] [] \<lparr> ideaStream = replicate 500 \<lparr> idea_id = 0, idea_flow = [], idea_cpp = [], idea_success = True, idea_output = [], idea_timestamp = [], idea_phi_pulse = 0 \<rparr>, compilationCount = 500 \<rparr>)]"
proof -
  let ?g = "\<lparr> ideaStream = replicate 500 \<lparr> idea_id = 0, idea_flow = [], idea_cpp = [], idea_success = True, idea_output = [], idea_timestamp = [], idea_phi_pulse = 0 \<rparr>, compilationCount = 500 \<rparr>"
  have len: "length (ideaStream ?g) = 500" by simp
  from ledger_bounded_fifo [of "[]" ?g "[]" "[]" True "[]" "[]"] len
  have "ideaStream (snd (logIdea [] [] True [] [] ?g)) = tl (ideaStream ?g) @ [fst (logIdea [] [] True [] [] ?g)]"
    by blast
  with len show ?thesis by simp
qed

section \<open>The sandbox harness\<close>

text \<open>
  Where C9 holds. \<^verbatim>\<open>compileAndRun\<close> returns a record for every source text and
  every behaviour of the environment. When \<^verbatim>\<open>which g++\<close> fails the record is
  the fixed report that the toolchain is unavailable. When writing the file, compiling
  or running throws \<open>err\<close>, the record has \<open>success = False\<close> and the text of
  \<^verbatim>\<open>err.stderr\<close> if that is truthy, else of \<^verbatim>\<open>err.stdout\<close> if that is
  truthy, else \<^verbatim>\<open>err.message\<close>. The record reports success only when all four
  calls returned.
\<close>

theorem compileAndRun_never_throws:
  "(which_gpp env \<noteq> None \<longrightarrow>
      compileAndRun env src = \<lparr> success = False, outputText = js ''[runtime unavailable: g++ not found]'' \<rparr>) \<and>
   (which_gpp env = None \<and>
      (writeFileSync env src = Some err \<or>
       writeFileSync env src = None \<and> compile env src = Some err \<or>
       writeFileSync env src = None \<and> compile env src = None \<and> run env src = Inl err) \<longrightarrow>
      compileAndRun env src =
        \<lparr> success = False,
          outputText = (if truthy (stderr err) then toString (stderr err)
                        else if truthy (stdout err) then toString (stdout err)
                        else message err) \<rparr>) \<and>
   (success (compileAndRun env src) \<longleftrightarrow>
      which_gpp env = None \<and> writeFileSync env src = None \<and> compile env src = None \<and>
      (\<exists>out. run env src = Inr out))"
  by (auto simp: compileAndRun_def caught_def split: option.splits sum.splits)

theorem compileAndRun_never_throws_witness:
  "which_gpp \<lparr> which_gpp = None, writeFileSync = (\<lambda>_. None),
               compile = (\<lambda>_. Some \<lparr> stderr = Text [], stdout = Text (js ''error''), message = [] \<rparr>),
               run = (\<lambda>_. Inr []) \<rparr> = None \<and>
   compileAndRun \<lparr> which_gpp = None, writeFileSync = (\<lambda>_. None),
                   compile = (\<lambda>_. Some \<lparr> stderr = Text [], stdout = Text (js ''error''), message = [] \<rparr>),
                   run = (\<lambda>_. Inr []) \<rparr> [] =
     \<lparr> success = False, outputText = js ''error'' \<rparr>"
  using compileAndRun_never_throws
    [of "\<lparr> which_gpp = None, writeFileSync = (\<lambda>_. None),
           compile = (\<lambda>_. Some \<lparr> stderr = Text [], stdout = Text (js ''error''), message = [] \<rparr>),
           run = (\<lambda>_. Inr []) \<rparr>" "[]"
        "\<lparr> stderr = Text [], stdout = Text (js ''error''), message = [] \<rparr>"]
  by (simp add: js_def)

text \<open>
  C9. The compiler is run without an encoding option, so that the \<^verbatim>\<open>stderr\<close> and
  \<^verbatim>\<open>stdout\<close> of its error are buffers, and its command line ends with
  \<^verbatim>\<open>2>&1\<close>, so that the diagnostics of the compiler arrive in \<^verbatim>\<open>stdout\<close>
  and \<^verbatim>\<open>stderr\<close> is empty. A buffer is an object and is truthy also when it is
  empty. So, whatever the diagnostics and the message of a failed compilation are, the
  payload is the empty text of \<^verbatim>\<open>stderr\<close>: the diagnostic text that is
  available in \<^verbatim>\<open>stdout\<close> is not returned.
\<close>

theorem compile_failure_payload_is_empty:
  "compileAndRun
     \<lparr> which_gpp = None, writeFileSync = (\<lambda>_. None),
       compile = (\<lambda>_. Some \<lparr> stderr = Buffer [], stdout = Buffer diagnostics, message = msg \<rparr>),
       run = runs \<rparr> src =
   \<lparr> success = False, outputText = [] \<rparr>"
  by (simp add: compileAndRun_def caught_def)
section \<open>Lines that start with an identifier\<close>

text \<open>
  A greedy quantifier over a run of characters of its class takes the whole run first;
  when the rest of the expression can start with no character of the class, no shorter
  choice can succeed.
\<close>

lemma word_not_space: "is_word c \<Longrightarrow> \<not> is_space c"
  by (auto simp: is_word_def is_space_def is_digit_def)

lemma search_Bol_Some [simp]: "search (Bol # r) (Some c) s = None"
  by (induction s arbitrary: c) simp_all

lemma search_Bol [simp]: "search (Bol # r) None s = rmatch (Bol # r) None s"
  by (cases s) (simp_all add: orelse_def split: option.splits)

lemma after_append [simp]: "u \<noteq> [] \<Longrightarrow> after p u = Some (last u)"
  by (simp add: after_def)

lemma rmatch_star_run:
  assumes "list_all (in_cls c) u"
      and "v = [] \<or> \<not> in_cls c (hd v)"
      and "\<And>q y ys. in_cls c y \<Longrightarrow> rmatch r q (y # ys) = None"
  shows "rmatch (Star c # r) p (u @ v) =
           (case rmatch r (after p u) v of Some segs \<Rightarrow> Some (u # segs) | None \<Rightarrow> None)"
  using assms(1)
proof (induction u arbitrary: p)
  case Nil
  show ?case
  proof (cases v)
    case Nil
    then show ?thesis by (simp add: skip_def after_def split: option.splits)
  next
    case (Cons y ys)
    with assms(2) show ?thesis by (simp add: skip_def after_def split: option.splits)
  qed
next
  case (Cons a u)
  then have a: "in_cls c a" and u: "list_all (in_cls c) u" by simp_all
  have aft: "after (Some a) u = after p (a # u)" by (simp add: after_def)
  show ?case
    using a Cons.IH [OF u, of "Some a"] assms(3) [OF a]
    by (simp add: aft cons_first_def skip_def split: option.splits)
qed

lemma rmatch_plus_run:
  assumes "u \<noteq> []" "list_all (in_cls c) u"
      and "v = [] \<or> \<not> in_cls c (hd v)"
      and "\<And>q y ys. in_cls c y \<Longrightarrow> rmatch r q (y # ys) = None"
  shows "rmatch (Plus c # r) p (u @ v) =
           (case rmatch r (Some (last u)) v of Some segs \<Rightarrow> Some (u # segs) | None \<Rightarrow> None)"
proof -
  obtain a u' where u: "u = a # u'" using assms(1) by (cases u) auto
  with assms(2) have a: "in_cls c a" and u': "list_all (in_cls c) u'" by simp_all
  have aft: "after (Some a) u' = Some (last u)" by (simp add: after_def u)
  show ?thesis
    using a rmatch_star_run [OF u' assms(3) assms(4), of "Some a"]
    by (simp add: u aft cons_first_def split: option.splits)
qed

lemma rmatch_ident_space [simp]:
  assumes "ident x" "rest = [] \<or> \<not> is_word (hd rest)"
  shows "rmatch (Plus Wd # GClose # Plus Sp # r) p (x @ rest) =
           (case rmatch (Plus Sp # r) (Some (last x)) rest of
              Some segs \<Rightarrow> Some (x # [] # segs) | None \<Rightarrow> None)"
proof -
  have rej: "\<And>q y ys. in_cls Wd y \<Longrightarrow> rmatch (GClose # Plus Sp # r) q (y # ys) = None"
    by (simp add: skip_def word_not_space)
  have "rmatch (Plus Wd # GClose # Plus Sp # r) p (x @ rest) =
          (case rmatch (GClose # Plus Sp # r) (Some (last x)) rest of
             Some segs \<Rightarrow> Some (x # segs) | None \<Rightarrow> None)"
    using assms by (intro rmatch_plus_run rej) (auto simp: ident_def list_all_iff)
  then show ?thesis by (simp add: skip_def split: option.splits)
qed

lemma rmatch_keyword_ident [simp]:
  assumes "ident x" "rest = [] \<or> \<not> is_word (hd rest)" "list_all is_word kw" "x \<noteq> kw"
  shows "rmatch (Str kw # Plus Sp # r) p (x @ rest) = None"
proof (cases "startsWith (x @ rest) kw")
  case False
  then show ?thesis by (simp add: rmatch.simps(15))
next
  case True
  then have tk: "take (length kw) (x @ rest) = kw" by (simp add: startsWith_def)
  have "rmatch (Plus Sp # r) q (drop (length kw) (x @ rest)) = None" for q
  proof (cases "length kw < length x")
    case True
    then have "drop (length kw) (x @ rest) = x ! length kw # drop (Suc (length kw)) x @ rest"
      by (simp add: Cons_nth_drop_Suc)
    moreover have "is_word (x ! length kw)"
      using assms(1) True by (simp add: ident_def list_all_length)
    ultimately show ?thesis by (simp add: word_not_space)
  next
    case False
    then have le: "length x \<le> length kw" by simp
    have "length x \<noteq> length kw"
    proof
      assume "length x = length kw"
      with tk have "x = kw" by simp
      with assms(4) show False by simp
    qed
    with le have lt: "length x < length kw" by simp
    from tk have kw: "kw = x @ take (length kw - length x) rest" using le by simp
    have "rest \<noteq> []"
    proof
      assume "rest = []"
      with kw have "length kw = length x" by (metis append_Nil2 take_Nil)
      with lt show False by simp
    qed
    moreover have "kw ! length x = hd rest"
    proof -
      have "kw ! length x = (x @ take (length kw - length x) rest) ! length x" using kw by simp
      also have "\<dots> = take (length kw - length x) rest ! 0" by (simp add: nth_append)
      also have "\<dots> = hd rest" using lt \<open>rest \<noteq> []\<close> by (simp add: hd_conv_nth)
      finally show ?thesis .
    qed
    moreover have "is_word (kw ! length x)" using assms(3) lt by (simp add: list_all_length)
    ultimately show ?thesis using assms(2) by simp
  qed
  with True show ?thesis by (simp add: rmatch.simps(15))
qed

lemma ident_simps [simp]:
  "ident x \<Longrightarrow> x \<noteq> []"
  "ident x \<Longrightarrow> x @ rest \<noteq> []"
  by (auto simp: ident_def)

lemma ident_not_startsWith [simp]:
  "ident x \<Longrightarrow> \<not> is_word c \<Longrightarrow> \<not> startsWith (x @ rest) (c # cs)"
  by (cases x) (auto simp: ident_def)

lemma step_statement:
  assumes "trim raw = line" "line \<noteq> []"
      and "\<not> startsWith line (js ''//'')" "\<not> startsWith line (js ''#'')"
      and "rule_to_start line s = None" "rule_to_def line s = None"
      and "\<And>s'. rule_struct line s' = None" "\<And>s'. rule_field line s' = None"
      and "\<And>s'. rule_method line s' = None"
      and "statement (js ''    '') line = Some e"
  shows "step s raw = emit (inFunction s) e (pre_closed s raw)"
  unfolding step_def Let_def indent_of_def [symmetric]
  using assms by (simp add: pre_closed_def)

section \<open>The guard of the function-call rule\<close>

text \<open>
  The function-call rule captures no line whose first word is one of the words of its
  guard list.
\<close>

lemma call_rule_guard:
  assumes "kw \<in> set call_keywords" "is_space sp"
  shows "rule_call pad (kw @ sp # rest) = None"
proof -
  have id: "ident kw" using assms(1) by (auto simp: call_keywords_def ident_def char_defs)
  have ns: "\<not> is_word sp" using assms(2) word_not_space by blast
  show ?thesis
    using assms(1) id ns
    by (simp add: rule_call_def js_match_def rx_call_def skip_def split: option.splits list.splits)
qed

text \<open>
  C4. The guard list of the function-call rule lacks the word \<^verbatim>\<open>a\<close>, which
  opens the struct and method headers and which the guard of the generic binding rule
  does list: the line \<^verbatim>\<open>a b\<close> is captured by the function-call rule and becomes
  \<^verbatim>\<open>a(b);\<close>, and the line \<^verbatim>\<open>a is b\<close>, which the guard of the binding rule
  turns away, becomes \<^verbatim>\<open>a(is b);\<close>.
\<close>

theorem call_rule_captures_keyword_a:
  "rule_call (js ''    '') (js ''a b'') = Some ([], js ''    a(b);'') \<and>
   bodyLines (translate_state (js ''a b'')) = [js ''    a(b);''] \<and>
   rule_is_generic (js ''    '') (js ''a is b'') = None \<and>
   rule_call (js ''    '') (js ''a is b'') = Some ([], js ''    a(is b);'') \<and>
   bodyLines (translate_state (js ''a is b'')) = [js ''    a(is b);'']"
  by (simp add: eval_defs)

section \<open>The two rewriters\<close>

subsection \<open>Global replacement, word by word\<close>

lemma search_None_replace: "search r p s = None \<Longrightarrow> replace_from r rep p s = s"
proof (induction s arbitrary: p)
  case Nil
  then show ?case by simp
next
  case (Cons x xs)
  from Cons.prems have "rmatch r p (x # xs) = None" "search r (Some x) xs = None"
    by (auto simp: orelse_def split: option.splits)
  with Cons.IH show ?case by simp
qed

lemma no_match_replaceAll: "js_match s r = None \<Longrightarrow> replaceAll s r rep = s"
  by (simp add: js_match_def replaceAll_def search_None_replace)

lemma replace_through_run:
  assumes "list_all is_word u" "is_word c"
  shows "replace_from (WB # q) rep (Some c) (u @ r) = u @ replace_from (WB # q) rep (after (Some c) u) r"
  using assms
proof (induction u arbitrary: c)
  case Nil
  then show ?case by (simp add: after_def)
next
  case (Cons a u)
  then have "rmatch (WB # q) (Some c) (a # u @ r) = None" by (simp add: word_boundary_def)
  moreover have "after (Some a) u = after (Some c) (a # u)" by (simp add: after_def)
  ultimately show ?case using Cons by simp
qed


lemma run_split:
  assumes "is_word c"
  shows "ident (takeWhile is_word (c # cs))"
    and "nonword_start (dropWhile is_word (c # cs))"
    and "takeWhile is_word (c # cs) @ dropWhile is_word (c # cs) = c # cs"
    and "takeWhile is_word (c # cs) = c # takeWhile is_word cs"
    and "dropWhile is_word (c # cs) = dropWhile is_word cs"
proof -
  show "ident (takeWhile is_word (c # cs))"
    using assms by (simp add: ident_def list_all_iff) (meson set_takeWhileD)
  show "nonword_start (dropWhile is_word (c # cs))"
    using hd_dropWhile [of is_word "c # cs"]
    by (cases "dropWhile is_word (c # cs)") (auto simp: nonword_start_def)
qed (use assms in simp_all)

lemma nonword_start_iff: "nonword_start r \<longleftrightarrow> r = [] \<or> \<not> is_word (hd r)"
  by (cases r) (simp_all add: nonword_start_def)

lemma ident_last: "ident x \<Longrightarrow> is_word (last x)"
  by (auto simp: ident_def list_all_iff)

lemma ident_hd: "ident x \<Longrightarrow> is_word (hd x)"
  by (cases x) (auto simp: ident_def)

lemma rmatch_literal_other:
  assumes "ident x" "rest = [] \<or> \<not> is_word (hd rest)" "ident kw" "x \<noteq> kw"
      and rej: "\<And>pc y ys. is_word pc \<Longrightarrow> is_word y \<Longrightarrow> rmatch q (Some pc) (y # ys) = None"
  shows "rmatch (Str kw # q) p (x @ rest) = None"
proof (cases "startsWith (x @ rest) kw")
  case False
  then show ?thesis by (simp add: rmatch.simps(15))
next
  case True
  then have tk: "take (length kw) (x @ rest) = kw" by (simp add: startsWith_def)
  have aft: "after p kw = Some (last kw)" using assms(3) by (simp add: after_def ident_def)
  have "rmatch q (Some (last kw)) (drop (length kw) (x @ rest)) = None"
  proof (cases "length kw < length x")
    case True
    then have "drop (length kw) (x @ rest) = x ! length kw # drop (Suc (length kw)) x @ rest"
      by (simp add: Cons_nth_drop_Suc)
    moreover have "is_word (x ! length kw)"
      using assms(1) True by (simp add: ident_def list_all_length)
    ultimately show ?thesis using rej ident_last [OF assms(3)] by simp
  next
    case False
    then have le: "length x \<le> length kw" by simp
    have "length x \<noteq> length kw"
    proof
      assume "length x = length kw"
      with tk have "x = kw" by simp
      with assms(4) show False by simp
    qed
    with le have lt: "length x < length kw" by simp
    from tk have kw: "kw = x @ take (length kw - length x) rest" using le by simp
    have "rest \<noteq> []"
    proof
      assume "rest = []"
      with kw have "length kw = length x" by (metis append_Nil2 take_Nil)
      with lt show False by simp
    qed
    moreover have "kw ! length x = hd rest"
    proof -
      have "kw ! length x = (x @ take (length kw - length x) rest) ! length x" using kw by simp
      also have "\<dots> = take (length kw - length x) rest ! 0" by (simp add: nth_append)
      also have "\<dots> = hd rest" using lt \<open>rest \<noteq> []\<close> by (simp add: hd_conv_nth)
      finally show ?thesis .
    qed
    moreover have "is_word (kw ! length x)" using assms(3) lt by (simp add: ident_def list_all_length)
    ultimately show ?thesis using assms(2) by simp
  qed
  with True aft show ?thesis by (simp add: rmatch.simps(15))
qed

lemma rmatch_keyword_at_run:
  assumes "ident w" "nonword_start r" "nonword_before p" "ident K"
  shows "rmatch [WB, Str K, WB] p (w @ r) = (if w = K then Some [[], K, []] else None)"
proof -
  have wb: "word_boundary p (w @ r)"
    using assms(1,3) by (cases w) (auto simp: word_boundary_def nonword_before_def ident_def split: option.splits)
  show ?thesis
  proof (cases "w = K")
    case True
    have "word_boundary (Some (last K)) r"
      using ident_last [OF assms(4)] assms(2)
      by (auto simp: word_boundary_def nonword_start_def split: list.splits)
    moreover have "after p K = Some (last K)" using assms(4) by (simp add: after_def ident_def)
    ultimately show ?thesis using wb True
      by (simp add: rmatch.simps(15) startsWith_def skip_def)
  next
    case False
    have "rmatch (Str K # [WB]) p (w @ r) = None"
      using assms(1) _ assms(4) False
    proof (rule rmatch_literal_other)
      show "r = [] \<or> \<not> is_word (hd r)" using assms(2) by (simp add: nonword_start_iff)
    qed (simp add: word_boundary_def)
    with False show ?thesis by (simp add: skip_def)
  qed
qed

lemma replace_word_subst:
  "ident K \<Longrightarrow> nonword_before p \<or> nonword_start s \<Longrightarrow>
     replace_from [WB, Str K, WB] Y p s = word_subst K Y s"
proof (induction K Y s arbitrary: p rule: word_subst.induct)
  case (1 K Y)
  obtain k ks where "K = k # ks" using 1(1) by (cases K) (auto simp: ident_def)
  then show ?case by (simp add: skip_def)
next
  case (2 K Y c cs)
  note K = \<open>ident K\<close>
  show ?case
  proof (cases "is_word c")
    case False
    obtain k ks where k: "K = k # ks" "is_word k" using K by (cases K) (auto simp: ident_def)
    with False have "c \<noteq> k" by auto
    then have "rmatch [WB, Str K, WB] p (c # cs) = None" by (simp add: k skip_def)
    moreover have "replace_from [WB, Str K, WB] Y (Some c) cs = word_subst K Y cs"
      using False by (intro 2(2) K) (simp_all add: nonword_before_def)
    ultimately show ?thesis using False by simp
  next
    case True
    let ?w = "takeWhile is_word (c # cs)" and ?r = "dropWhile is_word (c # cs)"
    note rs = run_split [OF True, of cs]
    have p: "nonword_before p" using 2(4) True by (simp add: nonword_start_def)
    have m: "rmatch [WB, Str K, WB] p (c # cs) = (if ?w = K then Some [[], K, []] else None)"
      using rmatch_keyword_at_run [OF rs(1) rs(2) p K] by (simp only: rs(3))
    have IH: "replace_from [WB, Str K, WB] Y q ?r = word_subst K Y ?r" for q
      using rs(2) by (intro 2(1) True K) simp
    show ?thesis
    proof (cases "?w = K")
      case wK: True
      have len: "length K \<noteq> 0" using K by (simp add: ident_def)
      have "drop (length K) (c # cs) = ?r"
        by (metis wK append_eq_conv_conj rs(3))
      moreover have "take (length K) (c # cs) = K"
        by (metis wK append_eq_conv_conj rs(3))
      ultimately have "replace_from [WB, Str K, WB] Y p (c # cs) =
          Y @ replace_from [WB, Str K, WB] Y (after p K) ?r"
        using m wK len by (simp add: Let_def del: takeWhile.simps dropWhile.simps)
      with IH wK True show ?thesis by (simp del: takeWhile.simps dropWhile.simps)
    next
      case wK: False
      have "replace_from [WB, Str K, WB] Y p (c # cs) = c # replace_from [WB, Str K, WB] Y (Some c) cs"
        using m wK by simp
      also have "cs = takeWhile is_word cs @ ?r" using rs(5) by simp
      also have "replace_from [WB, Str K, WB] Y (Some c) (takeWhile is_word cs @ ?r) =
          takeWhile is_word cs @ replace_from [WB, Str K, WB] Y (after (Some c) (takeWhile is_word cs)) ?r"
        using True by (intro replace_through_run) (simp_all add: list_all_iff, meson set_takeWhileD)
      finally show ?thesis using IH wK True by (simp add: rs(5))
    qed
  qed
qed


lemma replace_from_match:
  assumes "rmatch r p s = Some segs" "s = m @ rest" "concat segs = m" "m \<noteq> []"
  shows "replace_from r rep p s = rep @ replace_from r rep (Some (last m)) rest"
proof -
  have "s \<noteq> []" using assms(2,4) by simp
  then obtain x xs where s: "s = x # xs" by (cases s) auto
  have "take (length m) (x # xs) = m" "drop (length m) (x # xs) = rest"
    using assms(2) s by (metis append_eq_conv_conj)+
  moreover have "after p m = Some (last m)" using assms(4) by (simp add: after_def)
  moreover have "length m \<noteq> 0" using assms(4) by simp
  ultimately show ?thesis
    unfolding s replace_from.simps using assms(1,3) s by (simp add: Let_def)
qed

lemma replace_from_no_match:
  "rmatch r p (x # xs) = None \<Longrightarrow> replace_from r rep p (x # xs) = x # replace_from r rep (Some x) xs"
  by simp

lemma rmatch_Star_end: "rmatch [Star c] q s = Some [takeWhile (in_cls c) s]"
  by (induction s arbitrary: q) (simp_all add: skip_def cons_first_def)

lemma rmatch_Plus_end:
  "rmatch [Plus c] q s = (if s \<noteq> [] \<and> in_cls c (hd s) then Some [takeWhile (in_cls c) s] else None)"
  by (cases s) (simp_all add: rmatch_Star_end cons_first_def)

lemma rmatch_not_at_run:
  assumes "ident w" "nonword_start r" "nonword_before p"
  shows "rmatch [WB, Str (js ''not''), Plus Sp] p (w @ r) =
           (if w = js ''not'' \<and> r \<noteq> [] \<and> is_space (hd r)
            then Some [[], js ''not'', takeWhile is_space r] else None)"
proof -
  have wb: "word_boundary p (w @ r)"
    using assms(1,3) by (cases w) (auto simp: word_boundary_def nonword_before_def ident_def split: option.splits)
  have idn: "ident (js ''not'')" by (simp add: ident_def char_defs)
  show ?thesis
  proof (cases "w = js ''not''")
    case True
    have "in_cls Sp = is_space" by (rule ext) simp
    then show ?thesis using wb True
      by (simp add: rmatch.simps(15) startsWith_def skip_def rmatch_Plus_end)
  next
    case False
    have "rmatch (Str (js ''not'') # [Plus Sp]) p (w @ r) = None"
      using assms(1) _ idn False
    proof (rule rmatch_literal_other)
      show "r = [] \<or> \<not> is_word (hd r)" using assms(2) by (simp add: nonword_start_iff)
    qed (simp add: word_not_space)
    with False show ?thesis by (simp add: skip_def)
  qed
qed

lemma replace_not_subst:
  "nonword_before p \<or> nonword_start s \<Longrightarrow>
     replace_from [WB, Str (js ''not''), Plus Sp] (js ''!'') p s = not_subst s"
proof (induction s arbitrary: p rule: not_subst.induct)
  case 1
  show ?case by (simp add: skip_def js_def)
next
  case (2 c cs)
  let ?rx = "[WB, Str (js ''not''), Plus Sp]"
  show ?case
  proof (cases "is_word c")
    case False
    then have "c \<noteq> 110" by (auto simp: char_defs)
    then have "rmatch ?rx p (c # cs) = None" by (simp add: skip_def js_def)
    then have "replace_from ?rx (js ''!'') p (c # cs) = c # replace_from ?rx (js ''!'') (Some c) cs"
      by (rule replace_from_no_match)
    moreover have "replace_from ?rx (js ''!'') (Some c) cs = not_subst cs"
      using False by (intro 2(3)) (simp_all add: nonword_before_def)
    ultimately show ?thesis using False by (simp only: not_subst.simps if_False)
  next
    case True
    let ?w = "takeWhile is_word (c # cs)" and ?r = "dropWhile is_word (c # cs)"
    note rs = run_split [OF True, of cs]
    have p: "nonword_before p" using 2(4) True by (simp add: nonword_start_def)
    have m: "rmatch ?rx p (c # cs) =
        (if ?w = js ''not'' \<and> ?r \<noteq> [] \<and> is_space (hd ?r)
         then Some [[], js ''not'', takeWhile is_space ?r] else None)"
      using rmatch_not_at_run [OF rs(1) rs(2) p] by (simp only: rs(3))
    show ?thesis
    proof (cases "?w = js ''not'' \<and> ?r \<noteq> [] \<and> is_space (hd ?r)")
      case c: True
      let ?sp = "takeWhile is_space ?r" and ?r' = "dropWhile is_space ?r"
      have sp: "?sp \<noteq> []" "is_space (last ?sp)"
      proof -
        show "?sp \<noteq> []" using c by (cases ?r) auto
        then show "is_space (last ?sp)" by (meson last_in_set set_takeWhileD)
      qed
      have whole: "c # cs = (js ''not'' @ ?sp) @ ?r'"
        using rs(3) c by (metis append.assoc takeWhile_dropWhile_id)
      have m': "rmatch ?rx p (c # cs) = Some [[], js ''not'', ?sp]"
        using m by (simp only: if_P [OF c])
      have lst: "last (js ''not'' @ ?sp) = last ?sp" using sp(1) by simp
      have "replace_from ?rx (js ''!'') p (c # cs) =
          js ''!'' @ replace_from ?rx (js ''!'') (Some (last (js ''not'' @ ?sp))) ?r'"
        using m' whole by (rule replace_from_match) (simp_all add: js_def)
      then have "replace_from ?rx (js ''!'') p (c # cs) =
          js ''!'' @ replace_from ?rx (js ''!'') (Some (last ?sp)) ?r'"
        by (simp only: lst)
      moreover have "replace_from ?rx (js ''!'') (Some (last ?sp)) ?r' = not_subst ?r'"
        using True c sp(2) word_not_space by (intro 2(1)) (auto simp: nonword_before_def)
      ultimately show ?thesis using True c by (simp del: takeWhile.simps dropWhile.simps)
    next
      case c: False
      have IH: "replace_from ?rx (js ''!'') q ?r = not_subst ?r" for q
        using rs(2) True c by (intro 2(2)) auto
      have "rmatch ?rx p (c # cs) = None"
        using m by (simp only: if_not_P [OF c])
      then have "replace_from ?rx (js ''!'') p (c # cs) = c # replace_from ?rx (js ''!'') (Some c) cs"
        by (rule replace_from_no_match)
      also have "cs = takeWhile is_word cs @ ?r" using rs(5) by simp
      also have "replace_from ?rx (js ''!'') (Some c) (takeWhile is_word cs @ ?r) =
          takeWhile is_word cs @ replace_from ?rx (js ''!'') (after (Some c) (takeWhile is_word cs)) ?r"
        using True by (intro replace_through_run) (simp_all add: list_all_iff, meson set_takeWhileD)
      finally show ?thesis using IH c True by (auto simp: rs(5))
    qed
  qed
qed


lemma run_append:
  assumes "ident w" "nonword_start t"
  shows "takeWhile is_word (w @ t) = w" "dropWhile is_word (w @ t) = t"
proof -
  have w: "\<And>x. x \<in> set w \<Longrightarrow> is_word x" using assms(1) by (simp add: ident_def list_all_iff)
  have t: "takeWhile is_word t = []" "dropWhile is_word t = t"
    using assms(2) by (cases t; simp add: nonword_start_def)+
  show "takeWhile is_word (w @ t) = w" using w t by (simp add: takeWhile_append2)
  show "dropWhile is_word (w @ t) = t" using w t by (simp add: dropWhile_append2)
qed

lemma word_subst_nonword:
  "list_all (\<lambda>c. \<not> is_word c) u \<Longrightarrow> word_subst K Y (u @ t) = u @ word_subst K Y t"
  by (induction u) simp_all

lemma word_subst_run:
  assumes "ident w" "nonword_start t"
  shows "word_subst K Y (w @ t) = (if w = K then Y else w) @ word_subst K Y t"
proof -
  obtain a w' where w: "w = a # w'" "is_word a" using assms(1) by (cases w) (auto simp: ident_def)
  have "word_subst K Y (a # (w' @ t)) =
      (if takeWhile is_word (a # (w' @ t)) = K then Y else takeWhile is_word (a # (w' @ t))) @
      word_subst K Y (dropWhile is_word (a # (w' @ t)))"
    using w(2) by (simp only: word_subst.simps if_True)
  then show ?thesis using run_append [OF assms] by (simp add: w(1))
qed

lemma word_subst_start:
  "nonword_start s \<Longrightarrow> nonword_start (word_subst K Y s)"
  by (cases s) (simp_all add: nonword_start_def)

lemma word_subst_space_start:
  assumes "nonword_start r"
  shows "(word_subst K Y r \<noteq> [] \<and> is_space (hd (word_subst K Y r))) = (r \<noteq> [] \<and> is_space (hd r))"
  using assms by (cases r) (simp_all add: nonword_start_def)

lemma not_subst_nonword:
  "list_all (\<lambda>c. \<not> is_word c) u \<Longrightarrow> not_subst (u @ t) = u @ not_subst t"
  by (induction u) simp_all

lemma not_subst_run:
  assumes "ident w" "nonword_start t"
  shows "not_subst (w @ t) =
           (if w = js ''not'' \<and> t \<noteq> [] \<and> is_space (hd t)
            then js ''!'' @ not_subst (dropWhile is_space t) else w @ not_subst t)"
proof -
  obtain a w' where w: "w = a # w'" "is_word a" using assms(1) by (cases w) (auto simp: ident_def)
  have "not_subst (a # (w' @ t)) =
     (if takeWhile is_word (a # (w' @ t)) = js ''not'' \<and> dropWhile is_word (a # (w' @ t)) \<noteq> [] \<and>
               is_space (hd (dropWhile is_word (a # (w' @ t))))
            then js ''!'' @ not_subst (dropWhile is_space (dropWhile is_word (a # (w' @ t))))
            else takeWhile is_word (a # (w' @ t)) @ not_subst (dropWhile is_word (a # (w' @ t))))"
    using w(2) by (simp only: not_subst.simps if_True)
  then show ?thesis using run_append [OF assms] by (simp add: w(1))
qed

lemma not_subst_start:
  "nonword_start s \<Longrightarrow> nonword_start (not_subst s)"
  by (cases s) (simp_all add: nonword_start_def)

lemma word_subst_commute:
  assumes "ident K" "ident K'" "K \<noteq> K'"
      and "list_all (\<lambda>c. \<not> is_word c) Y" "list_all (\<lambda>c. \<not> is_word c) Y'"
  shows "word_subst K Y (word_subst K' Y' s) = word_subst K' Y' (word_subst K Y s)"
proof (induction s rule: length_induct)
  case (1 s)
  show ?case
  proof (cases s)
    case Nil
    then show ?thesis by simp
  next
    case (Cons c cs)
    show ?thesis
    proof (cases "is_word c")
      case False
      have "length cs < length s" using Cons by simp
      with 1 have "word_subst K Y (word_subst K' Y' cs) = word_subst K' Y' (word_subst K Y cs)" by blast
      with False show ?thesis by (simp add: Cons)
    next
      case True
      define w where "w = takeWhile is_word (c # cs)"
      define r where "r = dropWhile is_word (c # cs)"
      have w: "ident w" and r: "nonword_start r" and s: "s = w @ r"
        using run_split [OF True, of cs] Cons by (simp_all add: w_def r_def)
      have "length r < length s" using Cons True by (simp add: r_def length_dropWhile_le less_Suc_eq_le)
      with 1 have IH: "word_subst K Y (word_subst K' Y' r) = word_subst K' Y' (word_subst K Y r)" by blast
      have st: "nonword_start (word_subst K' Y' r)" "nonword_start (word_subst K Y r)"
        using r by (simp_all add: word_subst_start)
      have a: "word_subst K' Y' s = (if w = K' then Y' else w) @ word_subst K' Y' r"
        unfolding s by (rule word_subst_run [OF w r])
      have b: "word_subst K Y s = (if w = K then Y else w) @ word_subst K Y r"
        unfolding s by (rule word_subst_run [OF w r])
      consider (k') "w = K'" | (k) "w = K" | (other) "w \<noteq> K" "w \<noteq> K'" by blast
      then show ?thesis
      proof cases
        case k'
        then have nk: "w \<noteq> K" using assms(3) by auto
        have "word_subst K Y (word_subst K' Y' s) = Y' @ word_subst K Y (word_subst K' Y' r)"
          using a k' word_subst_nonword [OF assms(5), of K Y] by simp
        moreover have "word_subst K' Y' (word_subst K Y s) = Y' @ word_subst K' Y' (word_subst K Y r)"
          using b k' nk word_subst_run [OF w st(2), of K' Y'] by simp
        ultimately show ?thesis using IH by simp
      next
        case k
        then have nk: "w \<noteq> K'" using assms(3) by auto
        have "word_subst K Y (word_subst K' Y' s) = Y @ word_subst K Y (word_subst K' Y' r)"
          using a k nk word_subst_run [OF w st(1), of K Y] by simp
        moreover have "word_subst K' Y' (word_subst K Y s) = Y @ word_subst K' Y' (word_subst K Y r)"
          using b k word_subst_nonword [OF assms(4), of K' Y'] by simp
        ultimately show ?thesis using IH by simp
      next
        case other
        have "word_subst K Y (word_subst K' Y' s) = w @ word_subst K Y (word_subst K' Y' r)"
          using a other word_subst_run [OF w st(1), of K Y] by simp
        moreover have "word_subst K' Y' (word_subst K Y s) = w @ word_subst K' Y' (word_subst K Y r)"
          using b other word_subst_run [OF w st(2), of K' Y'] by simp
        ultimately show ?thesis using IH by simp
      qed
    qed
  qed
qed

lemma word_subst_drop_spaces:
  assumes "Y \<noteq> []" "\<not> is_space (hd Y)" "t = [] \<or> \<not> is_space (hd t)"
  shows "dropWhile is_space (word_subst K Y t) = word_subst K Y t"
proof (cases t)
  case Nil
  then show ?thesis by simp
next
  case (Cons y ys)
  with assms(3) have y: "\<not> is_space y" by simp
  show ?thesis
  proof (cases "is_word y")
    case False
    with y show ?thesis by (simp add: Cons)
  next
    case True
    with assms(1,2) y show ?thesis
      by (cases Y) (simp_all add: Cons)
  qed
qed

lemma dropWhile_space_start: "dropWhile is_space r = [] \<or> \<not> is_space (hd (dropWhile is_space r))"
  using hd_dropWhile [of is_space r] by blast

lemma word_not_subst_commute:
  assumes "ident K" "K \<noteq> js ''not''"
      and "list_all (\<lambda>c. \<not> is_word c) Y" "Y \<noteq> []" "\<not> is_space (hd Y)"
  shows "word_subst K Y (not_subst s) = not_subst (word_subst K Y s)"
proof (induction s rule: length_induct)
  case (1 s)
  have bang: "list_all (\<lambda>c. \<not> is_word c) (js ''!'')" by (simp add: char_defs)
  show ?case
  proof (cases s)
    case Nil
    then show ?thesis by simp
  next
    case (Cons c cs)
    show ?thesis
    proof (cases "is_word c")
      case False
      have "length cs < length s" using Cons by simp
      with 1 have "word_subst K Y (not_subst cs) = not_subst (word_subst K Y cs)" by blast
      with False show ?thesis by (simp add: Cons)
    next
      case True
      define w where "w = takeWhile is_word (c # cs)"
      define r where "r = dropWhile is_word (c # cs)"
      have w: "ident w" and r: "nonword_start r" and s: "s = w @ r"
        using run_split [OF True, of cs] Cons by (simp_all add: w_def r_def)
      have len: "length r < length s" using Cons True by (simp add: r_def length_dropWhile_le less_Suc_eq_le)
      with 1 have IH: "word_subst K Y (not_subst r) = not_subst (word_subst K Y r)" by blast
      have "length (dropWhile is_space r) < length s"
        using len length_dropWhile_le [of is_space r] by simp
      with 1 have IH': "word_subst K Y (not_subst (dropWhile is_space r)) =
          not_subst (word_subst K Y (dropWhile is_space r))" by blast
      have st: "nonword_start (not_subst r)" "nonword_start (word_subst K Y r)"
        using r by (simp_all add: word_subst_start not_subst_start)
      have sp: "word_subst K Y r = takeWhile is_space r @ word_subst K Y (dropWhile is_space r)"
      proof -
        have "list_all (\<lambda>c. \<not> is_word c) (takeWhile is_space r)"
          by (simp add: list_all_iff) (meson set_takeWhileD word_not_space)
        from word_subst_nonword [OF this, of K Y "dropWhile is_space r"] show ?thesis by simp
      qed
      have dsp: "dropWhile is_space (word_subst K Y r) = word_subst K Y (dropWhile is_space r)"
      proof -
        have "dropWhile is_space (word_subst K Y r) =
            dropWhile is_space (word_subst K Y (dropWhile is_space r))"
          by (subst sp, rule dropWhile_append2) (auto dest: set_takeWhileD)
        then show ?thesis by (simp only: word_subst_drop_spaces [OF assms(4,5) dropWhile_space_start])
      qed
      have ws: "word_subst K Y s = (if w = K then Y else w) @ word_subst K Y r"
        unfolding s by (rule word_subst_run [OF w r])
      have ns: "not_subst s =
          (if w = js ''not'' \<and> r \<noteq> [] \<and> is_space (hd r)
           then js ''!'' @ not_subst (dropWhile is_space r) else w @ not_subst r)"
        unfolding s by (rule not_subst_run [OF w r])
      have nsw: "not_subst (w @ word_subst K Y r) =
          (if w = js ''not'' \<and> word_subst K Y r \<noteq> [] \<and> is_space (hd (word_subst K Y r))
           then js ''!'' @ not_subst (dropWhile is_space (word_subst K Y r))
           else w @ not_subst (word_subst K Y r))"
        by (rule not_subst_run [OF w st(2)])
      have wsn: "word_subst K Y (w @ not_subst r) = (if w = K then Y else w) @ word_subst K Y (not_subst r)"
        by (rule word_subst_run [OF w st(1)])
      note sps = word_subst_space_start [OF r, of K Y]
      show ?thesis
      proof (cases "w = js ''not'' \<and> r \<noteq> [] \<and> is_space (hd r)")
        case c: True
        then have wK: "w \<noteq> K" using assms(2) by auto
        have c': "w = js ''not'' \<and> word_subst K Y r \<noteq> [] \<and> is_space (hd (word_subst K Y r))"
          using c sps by blast
        have "word_subst K Y (not_subst s) = js ''!'' @ word_subst K Y (not_subst (dropWhile is_space r))"
          by (simp only: ns if_P [OF c] word_subst_nonword [OF bang])
        moreover have "not_subst (word_subst K Y s) = js ''!'' @ not_subst (word_subst K Y (dropWhile is_space r))"
          by (simp only: ws if_not_P [OF wK] nsw if_P [OF c'] dsp)
        ultimately show ?thesis by (simp only: IH')
      next
        case c: False
        have c': "\<not> (w = js ''not'' \<and> word_subst K Y r \<noteq> [] \<and> is_space (hd (word_subst K Y r)))"
          using c sps by blast
        have l: "word_subst K Y (not_subst s) = (if w = K then Y else w) @ word_subst K Y (not_subst r)"
          by (simp only: ns if_not_P [OF c] wsn)
        show ?thesis
        proof (cases "w = K")
          case True
          have "not_subst (word_subst K Y s) = Y @ not_subst (word_subst K Y r)"
            by (simp only: ws if_P [OF True] not_subst_nonword [OF assms(3)])
          then show ?thesis by (simp only: l if_P [OF True] IH)
        next
          case False
          have "not_subst (word_subst K Y s) = w @ not_subst (word_subst K Y r)"
            by (simp only: ws if_not_P [OF False] nsw if_not_P [OF c'])
          then show ?thesis by (simp only: l if_not_P [OF False] IH)
        qed
      qed
    qed
  qed
qed


lemma replaceAll_word_subst:
  "ident K \<Longrightarrow> replaceAll s [WB, Str K, WB] Y = word_subst K Y s"
  by (simp add: replaceAll_def replace_word_subst nonword_before_def)

lemma replaceAll_not_subst:
  "replaceAll s [WB, Str (js ''not''), Plus Sp] (js ''!'') = not_subst s"
  by (simp add: replaceAll_def replace_not_subst nonword_before_def)

lemma keyword_idents:
  "ident (js ''yes'')" "ident (js ''no'')" "ident (js ''and'')" "ident (js ''or'')"
  "ident (js ''not'')" "ident (js ''mod'')" "ident (js ''is'')"
  by (simp_all add: ident_def char_defs)

lemma symbol_nonword:
  "list_all (\<lambda>c. \<not> is_word c) (js ''&&'')" "list_all (\<lambda>c. \<not> is_word c) (js ''||'')"
  "list_all (\<lambda>c. \<not> is_word c) (js ''%'')" "list_all (\<lambda>c. \<not> is_word c) (js ''=='')"
  "list_all (\<lambda>c. \<not> is_word c) (js ''!'')" "js ''=='' \<noteq> []" "\<not> is_space (hd (js ''==''))"
  by (simp_all add: char_defs)

lemma translateExpr_words:
  assumes "js_match c rx_yes = None" "js_match c rx_no = None"
  shows "translateExpr c =
     word_subst (js ''is'') (js ''=='')
       (word_subst (js ''mod'') (js ''%'')
         (not_subst
           (word_subst (js ''or'') (js ''||'')
             (word_subst (js ''and'') (js ''&&'') c))))"
proof -
  have "replaceAll c rx_yes (js ''true'') = c" using assms(1) by (rule no_match_replaceAll)
  moreover have "replaceAll c rx_no (js ''false'') = c" using assms(2) by (rule no_match_replaceAll)
  ultimately show ?thesis
    unfolding translateExpr_def Let_def
    by (simp only: rx_and_def rx_or_def rx_not_def rx_mod_def rx_is_def
          replaceAll_word_subst [OF keyword_idents(3)] replaceAll_word_subst [OF keyword_idents(4)]
          replaceAll_word_subst [OF keyword_idents(6)] replaceAll_word_subst [OF keyword_idents(7)]
          replaceAll_not_subst)
qed

lemma translateCond_words:
  assumes "js_match c rx_is_not = None"
  shows "translateCond c =
     word_subst (js ''mod'') (js ''%'')
       (not_subst
         (word_subst (js ''or'') (js ''||'')
           (word_subst (js ''and'') (js ''&&'')
             (word_subst (js ''is'') (js ''=='') c))))"
proof -
  have "replaceAll c rx_is_not (js ''!='') = c" using assms by (rule no_match_replaceAll)
  then show ?thesis
    unfolding translateCond_def Let_def
    by (simp only: rx_and_def rx_or_def rx_not_def rx_mod_def rx_is_def
          replaceAll_word_subst [OF keyword_idents(3)] replaceAll_word_subst [OF keyword_idents(4)]
          replaceAll_word_subst [OF keyword_idents(6)] replaceAll_word_subst [OF keyword_idents(7)]
          replaceAll_not_subst)
qed

lemma is_commutes:
  "word_subst (js ''is'') (js ''=='') (word_subst (js ''mod'') (js ''%'') s) =
     word_subst (js ''mod'') (js ''%'') (word_subst (js ''is'') (js ''=='') s)"
  "word_subst (js ''is'') (js ''=='') (word_subst (js ''or'') (js ''||'') s) =
     word_subst (js ''or'') (js ''||'') (word_subst (js ''is'') (js ''=='') s)"
  "word_subst (js ''is'') (js ''=='') (word_subst (js ''and'') (js ''&&'') s) =
     word_subst (js ''and'') (js ''&&'') (word_subst (js ''is'') (js ''=='') s)"
  "word_subst (js ''is'') (js ''=='') (not_subst s) = not_subst (word_subst (js ''is'') (js ''=='') s)"
proof -
  have ne: "js ''is'' \<noteq> js ''mod''" "js ''is'' \<noteq> js ''or''" "js ''is'' \<noteq> js ''and''"
    "js ''is'' \<noteq> js ''not''" by (simp_all add: js_def)
  show "word_subst (js ''is'') (js ''=='') (word_subst (js ''mod'') (js ''%'') s) =
     word_subst (js ''mod'') (js ''%'') (word_subst (js ''is'') (js ''=='') s)"
    by (rule word_subst_commute [OF keyword_idents(7) keyword_idents(6) ne(1) symbol_nonword(4) symbol_nonword(3)])
  show "word_subst (js ''is'') (js ''=='') (word_subst (js ''or'') (js ''||'') s) =
     word_subst (js ''or'') (js ''||'') (word_subst (js ''is'') (js ''=='') s)"
    by (rule word_subst_commute [OF keyword_idents(7) keyword_idents(4) ne(2) symbol_nonword(4) symbol_nonword(2)])
  show "word_subst (js ''is'') (js ''=='') (word_subst (js ''and'') (js ''&&'') s) =
     word_subst (js ''and'') (js ''&&'') (word_subst (js ''is'') (js ''=='') s)"
    by (rule word_subst_commute [OF keyword_idents(7) keyword_idents(3) ne(3) symbol_nonword(4) symbol_nonword(1)])
  show "word_subst (js ''is'') (js ''=='') (not_subst s) = not_subst (word_subst (js ''is'') (js ''=='') s)"
    by (rule word_not_subst_commute [OF keyword_idents(7) ne(4) symbol_nonword(4) symbol_nonword(6) symbol_nonword(7)])
qed

lemma rewriters_agree:
  assumes "js_match c rx_yes = None" "js_match c rx_no = None" "js_match c rx_is_not = None"
  shows "translateCond c = translateExpr c"
  by (simp only: translateExpr_words [OF assms(1,2)] translateCond_words [OF assms(3)] is_commutes)


lemma replace_ident_other:
  assumes "ident x" "nonword_start rest" "ident K" "x \<noteq> K" "nonword_before p"
      and rej: "\<And>pc y ys. is_word pc \<Longrightarrow> is_word y \<Longrightarrow> rmatch q (Some pc) (y # ys) = None"
  shows "replace_from (WB # Str K # q) rep p (x @ rest) =
           x @ replace_from (WB # Str K # q) rep (Some (last x)) rest"
proof -
  obtain a x' where x: "x = a # x'" "is_word a" "list_all is_word x'"
    using assms(1) by (cases x) (auto simp: ident_def)
  have "rmatch (Str K # q) p (x @ rest) = None"
    using assms(1) _ assms(3,4) rej
    by (rule rmatch_literal_other) (use assms(2) in \<open>simp add: nonword_start_iff\<close>)
  then have "rmatch (WB # Str K # q) p (a # x' @ rest) = None"
    by (simp add: x(1) skip_def)
  then have "replace_from (WB # Str K # q) rep p (a # x' @ rest) =
      a # replace_from (WB # Str K # q) rep (Some a) (x' @ rest)"
    by (rule replace_from_no_match)
  also have "replace_from (WB # Str K # q) rep (Some a) (x' @ rest) =
      x' @ replace_from (WB # Str K # q) rep (after (Some a) x') rest"
    using x(3,2) by (rule replace_through_run)
  also have "after (Some a) x' = Some (last x)" by (simp add: after_def x(1))
  finally show ?thesis by (simp add: x(1))
qed

lemma word_subst_ident: "ident y \<Longrightarrow> word_subst K Y y = (if y = K then Y else y)"
  using word_subst_run [of y "[]" K Y] by (simp add: nonword_start_def)

lemma not_subst_ident: "ident y \<Longrightarrow> not_subst y = y"
  using not_subst_run [of y "[]"] by (simp add: nonword_start_def)

lemma dropWhile_space_ident: "ident y \<Longrightarrow> dropWhile is_space y = y"
  by (cases y) (auto simp: ident_def word_not_space)

lemma is_not_stage:
  assumes "ident x" "ident y" "x \<noteq> js ''is''" "y \<noteq> js ''is''"
  shows "replaceAll (x @ js '' is not '' @ y) rx_is_not (js ''!='') = x @ js '' != '' @ y"
proof -
  let ?q = "[Plus Sp, Str (js ''not''), WB]"
  have rej: "\<And>pc y ys. is_word pc \<Longrightarrow> is_word y \<Longrightarrow> rmatch ?q (Some pc) (y # ys) = None"
    by (simp add: word_not_space)
  have x: "replace_from (WB # Str (js ''is'') # ?q) (js ''!='') None (x @ js '' is not '' @ y) =
      x @ replace_from (WB # Str (js ''is'') # ?q) (js ''!='') (Some (last x)) (js '' is not '' @ y)"
    using assms(1) _ keyword_idents(7) assms(3) _ rej
    by (rule replace_ident_other) (simp_all add: nonword_start_def nonword_before_def char_defs)
  have y: "replace_from (WB # Str (js ''is'') # ?q) (js ''!='') (Some 32) (y @ []) =
      y @ replace_from (WB # Str (js ''is'') # ?q) (js ''!='') (Some (last y)) []"
    using assms(2) _ keyword_idents(7) assms(4) _ rej
    by (rule replace_ident_other) (simp_all add: nonword_start_def nonword_before_def char_defs)
  have mid: "replace_from (WB # Str (js ''is'') # ?q) (js ''!='') (Some (last x)) (js '' is not '' @ y) =
      js '' != '' @ replace_from (WB # Str (js ''is'') # ?q) (js ''!='') (Some 32) y"
    using ident_last [OF assms(1)]
    by (simp add: char_defs engine_defs)
  have fin: "replace_from (WB # Str (js ''is'') # ?q) (js ''!='') (Some (last y)) [] = []"
    by (simp add: char_defs engine_defs)
  show ?thesis
    unfolding replaceAll_def rx_is_not_def using x y mid fin by simp
qed

lemma cond_is_not:
  assumes "ident x" "ident y" "x \<notin> set rewritten_words" "y \<notin> set rewritten_words"
  shows "translateCond (x @ js '' is not '' @ y) = x @ js '' != '' @ y"
proof -
  have ne: "x \<noteq> js ''is''" "y \<noteq> js ''is''" "x \<noteq> js ''and''" "y \<noteq> js ''and''"
    "x \<noteq> js ''or''" "y \<noteq> js ''or''" "x \<noteq> js ''not''" "y \<noteq> js ''not''"
    "x \<noteq> js ''mod''" "y \<noteq> js ''mod''"
    using assms(3,4) by (auto simp: rewritten_words_def)
  have ws: "word_subst K Y (x @ js '' != '' @ y) =
      (if x = K then Y else x) @ js '' != '' @ (if y = K then Y else y)" for K Y
    using word_subst_run [OF assms(1), of "js '' != '' @ y" K Y] word_subst_ident [OF assms(2), of K Y]
    by (simp add: nonword_start_def char_defs)
  have ns: "not_subst (x @ js '' != '' @ y) = x @ js '' != '' @ y"
    using not_subst_run [OF assms(1), of "js '' != '' @ y"] not_subst_ident [OF assms(2)] ne
    by (simp add: nonword_start_def char_defs)
  show ?thesis
    unfolding translateCond_def Let_def is_not_stage [OF assms(1,2) ne(1,2)]
    by (simp only: rx_and_def rx_or_def rx_not_def rx_mod_def rx_is_def
          replaceAll_word_subst [OF keyword_idents(3)] replaceAll_word_subst [OF keyword_idents(4)]
          replaceAll_word_subst [OF keyword_idents(6)] replaceAll_word_subst [OF keyword_idents(7)]
          replaceAll_not_subst ws ns ne if_False)
qed


lemma expr_is_not:
  assumes "ident x" "ident y" "x \<notin> set rewritten_words" "y \<notin> set rewritten_words"
  shows "translateExpr (x @ js '' is not '' @ y) = x @ js '' == !'' @ y"
proof -
  have ne: "x \<noteq> js ''is''" "y \<noteq> js ''is''" "x \<noteq> js ''and''" "y \<noteq> js ''and''"
    "x \<noteq> js ''or''" "y \<noteq> js ''or''" "x \<noteq> js ''not''" "y \<noteq> js ''not''"
    "x \<noteq> js ''mod''" "y \<noteq> js ''mod''" "x \<noteq> js ''yes''" "y \<noteq> js ''yes''"
    "x \<noteq> js ''no''" "y \<noteq> js ''no''"
    using assms(3,4) by (auto simp: rewritten_words_def)
  have ws: "K \<in> set [js ''yes'', js ''no'', js ''and'', js ''or'', js ''mod''] \<Longrightarrow>
      word_subst K Y (x @ js '' is not '' @ y) = x @ js '' is not '' @ y" for K Y
    using word_subst_run [OF assms(1), of "js '' is not '' @ y" K Y] word_subst_ident [OF assms(2), of K Y] ne
    by (auto simp: nonword_start_def char_defs)
  have ns: "not_subst (x @ js '' is not '' @ y) = x @ js '' is !'' @ y"
    using not_subst_run [OF assms(1), of "js '' is not '' @ y"] not_subst_ident [OF assms(2)]
      dropWhile_space_ident [OF assms(2)] ne
    by (simp add: nonword_start_def char_defs)
  have wm: "word_subst (js ''mod'') Y (x @ js '' is !'' @ y) = x @ js '' is !'' @ y" for Y
    using word_subst_run [OF assms(1), of "js '' is !'' @ y" "js ''mod''" Y]
      word_subst_ident [OF assms(2), of "js ''mod''" Y] ne
    by (simp add: nonword_start_def char_defs)
  have wi: "word_subst (js ''is'') (js ''=='') (x @ js '' is !'' @ y) = x @ js '' == !'' @ y"
    using word_subst_run [OF assms(1), of "js '' is !'' @ y" "js ''is''" "js ''==''"]
      word_subst_ident [OF assms(2), of "js ''is''" "js ''==''"] ne
    by (simp add: nonword_start_def char_defs)
  show ?thesis
    unfolding translateExpr_def Let_def
    by (simp only: rx_yes_def rx_no_def rx_and_def rx_or_def rx_not_def rx_mod_def rx_is_def
          replaceAll_word_subst [OF keyword_idents(1)] replaceAll_word_subst [OF keyword_idents(2)]
          replaceAll_word_subst [OF keyword_idents(3)] replaceAll_word_subst [OF keyword_idents(4)]
          replaceAll_word_subst [OF keyword_idents(6)] replaceAll_word_subst [OF keyword_idents(7)]
          replaceAll_not_subst) (simp add: ws ns wm wi)
qed

text \<open>
  Where C5 holds. \<^verbatim>\<open>translateCond\<close> substitutes the phrase \<^verbatim>\<open>is not\<close>
  before the word \<^verbatim>\<open>is\<close>: for all identifiers \<open>x\<close> and \<open>y\<close> that are none of
  the rewritten words, \<^verbatim>\<open>x is not y\<close> becomes \<^verbatim>\<open>x != y\<close>, where
  \<^verbatim>\<open>translateExpr\<close> gives \<^verbatim>\<open>x == !y\<close>. On every text in which neither the
  phrase \<^verbatim>\<open>is not\<close> nor the whole words \<^verbatim>\<open>yes\<close> and \<^verbatim>\<open>no\<close> occur, the
  two rewriters give the same output.
\<close>

theorem cond_and_expr_rewriters:
  "(ident x \<and> ident y \<and> x \<notin> set rewritten_words \<and> y \<notin> set rewritten_words \<longrightarrow>
      translateCond (x @ js '' is not '' @ y) = x @ js '' != '' @ y \<and>
      translateExpr (x @ js '' is not '' @ y) = x @ js '' == !'' @ y) \<and>
   (js_match c rx_yes = None \<and> js_match c rx_no = None \<and> js_match c rx_is_not = None \<longrightarrow>
      translateCond c = translateExpr c)"
  using cond_is_not expr_is_not rewriters_agree by blast

lemma rewriters_example:
  "ident (js ''x'')" "ident (js ''y'')" "js ''x'' \<notin> set rewritten_words" "js ''y'' \<notin> set rewritten_words"
  "js_match (js ''x is y and not z'') rx_yes = None" "js_match (js ''x is y and not z'') rx_no = None"
  "js_match (js ''x is y and not z'') rx_is_not = None"
  by (simp_all add: ident_def rewritten_words_def eval_defs)

theorem cond_and_expr_rewriters_witness:
  "ident (js ''x'') \<and> ident (js ''y'') \<and> js ''x'' \<notin> set rewritten_words \<and> js ''y'' \<notin> set rewritten_words \<and>
   translateCond (js ''x'' @ js '' is not '' @ js ''y'') = js ''x'' @ js '' != '' @ js ''y'' \<and>
   translateExpr (js ''x'' @ js '' is not '' @ js ''y'') = js ''x'' @ js '' == !'' @ js ''y'' \<and>
   js_match (js ''x is y and not z'') rx_yes = None \<and> js_match (js ''x is y and not z'') rx_no = None \<and>
   js_match (js ''x is y and not z'') rx_is_not = None \<and>
   translateCond (js ''x is y and not z'') = translateExpr (js ''x is y and not z'')"
  using cond_and_expr_rewriters [of "js ''x''" "js ''y''" "js ''x is y and not z''"] rewriters_example
  by blast

text \<open>
  C5. \<^verbatim>\<open>translateCond\<close> has no substitution for the words \<^verbatim>\<open>yes\<close> and
  \<^verbatim>\<open>no\<close>, which \<^verbatim>\<open>translateExpr\<close> rewrites into \<^verbatim>\<open>true\<close> and
  \<^verbatim>\<open>false\<close>: on the condition \<^verbatim>\<open>done is yes\<close>, which holds no
  \<^verbatim>\<open>is not\<close>, the two rewriters differ, and the line
  \<^verbatim>\<open>if done is yes:\<close> is translated with the word \<^verbatim>\<open>yes\<close> left in it.
\<close>

theorem cond_rewriter_leaves_yes:
  "js_match (js ''done is yes'') rx_is_not = None \<and>
   translateExpr (js ''done is yes'') = js ''done == true'' \<and>
   translateCond (js ''done is yes'') = js ''done == yes'' \<and>
   translateCond (js ''done is yes'') \<noteq> translateExpr (js ''done is yes'') \<and>
   bodyLines (translate_state (js ''if done is yes:'')) = [js ''    if (done == yes) {'']"
  by (simp add: eval_defs)

section \<open>What a match says about the text\<close>

text \<open>
  When an expression matches, the text it has consumed is the concatenation of one
  conforming text per atom, and an expression with an end anchor has consumed the whole
  text. So an expression that ends with a literal can match only a text that ends with
  that literal.
\<close>

lemma list_all_in_cls [simp]:
  "list_all (in_cls Sp) z = list_all is_space z"
  "list_all (in_cls Dg) z = list_all is_digit z"
  "list_all (in_cls Wd) z = list_all is_word z"
  "list_all (in_cls Dot) z = one_line z"
  by (simp_all add: list_all_iff one_line_def)

lemma cons_first_SomeD:
  "cons_first x r = Some segs \<Longrightarrow> \<exists>seg rest. r = Some (seg # rest) \<and> segs = (x # seg) # rest"
  by (auto simp: cons_first_def split: option.splits list.splits)

lemma skip_SomeD: "skip r = Some segs \<Longrightarrow> \<exists>rest. r = Some rest \<and> segs = [] # rest"
  by (auto simp: skip_def)

lemma orelse_SomeD: "orelse a b = Some x \<Longrightarrow> a = Some x \<or> (a = None \<and> b = Some x)"
  by (cases a) simp_all

lemma startsWith_append: "startsWith s k \<Longrightarrow> s = k @ drop (length k) s"
  by (metis append_take_drop_id startsWith_def)

lemma rmatch_sound:
  "rmatch r p s = Some segs \<Longrightarrow>
     list_all2 conforms r segs \<and> (\<exists>rest. s = concat segs @ rest \<and> (Eol \<in> set r \<longrightarrow> rest = []))"
proof (induction r p s arbitrary: segs rule: rmatch.induct)
  case (1 p s)
  then show ?case by simp
next
  case (2 r p s)
  then show ?case by (auto split: if_splits dest!: skip_SomeD)
next
  case (3 r p s)
  then show ?case by (auto split: if_splits dest!: skip_SomeD)
next
  case (4 r p s)
  then show ?case by (auto split: if_splits dest!: skip_SomeD)
next
  case (5 r p s)
  then show ?case by (auto split: if_splits dest!: skip_SomeD)
next
  case (6 r p s)
  then show ?case by (auto split: if_splits dest!: skip_SomeD)
next
  case (7 c r p)
  then show ?case by simp
next
  case (8 c r p x xs)
  then show ?case by (auto split: if_splits dest!: cons_first_SomeD skip_SomeD)
next
  case (9 c r p)
  then show ?case by (auto split: if_splits dest!: skip_SomeD)
next
  case (10 c r p x xs)
  then show ?case
    by (auto split: if_splits dest!: orelse_SomeD cons_first_SomeD skip_SomeD)
next
  case (11 c r p)
  then show ?case by (auto split: if_splits dest!: skip_SomeD)
next
  case (12 c r p x xs)
  then show ?case
    by (auto split: if_splits dest!: orelse_SomeD cons_first_SomeD skip_SomeD)
next
  case (13 c r p)
  then show ?case by simp
next
  case (14 c r p x xs)
  then show ?case
    by (auto split: if_splits dest!: cons_first_SomeD)
next
  case (15 k r p s)
  from 15(2) have sw: "startsWith s k"
    by (simp add: rmatch.simps(15) split: if_splits)
  with 15(2) obtain z where z: "rmatch r (after p k) (drop (length k) s) = Some z" "segs = k # z"
    by (auto simp: rmatch.simps(15))
  from 15(1) [OF sw z(1)] obtain rest where
    "list_all2 conforms r z" "drop (length k) s = concat z @ rest" "Eol \<in> set r \<longrightarrow> rest = []"
    by blast
  with startsWith_append [OF sw] z(2) show ?case by auto
next
  case (16 a b r p s)
  from 16(3) consider
      (left) z where "startsWith s a" "rmatch r (after p a) (drop (length a) s) = Some z" "segs = a # z"
    | (right) z where "startsWith s b" "rmatch r (after p b) (drop (length b) s) = Some z" "segs = b # z"
    by (auto simp: rmatch.simps(16) split: if_splits dest!: orelse_SomeD)
  then show ?case
  proof cases
    case left
    from 16(1) [OF left(1,2)] obtain rest where
      "list_all2 conforms r z" "drop (length a) s = concat z @ rest" "Eol \<in> set r \<longrightarrow> rest = []"
      by blast
    with startsWith_append [OF left(1)] left(3) show ?thesis by auto
  next
    case right
    from 16(2) [OF right(1,2)] obtain rest where
      "list_all2 conforms r z" "drop (length b) s = concat z @ rest" "Eol \<in> set r \<longrightarrow> rest = []"
      by blast
    with startsWith_append [OF right(1)] right(3) show ?thesis by auto
  qed
qed

subsection \<open>Rules that the last code unit of a line turns away\<close>

lemma js_match_NoneI: "rmatch (Bol # r) None s = None \<Longrightarrow> js_match s (Bol # r) = None"
  by (simp add: js_match_def)

lemma js_match_tail:
  assumes "js_match s r = Some m" "r = Bol # r1" "r = r0 @ tail" "Eol \<in> set tail"
  shows "\<exists>s0 st. s = s0 @ concat st \<and> list_all2 conforms tail st"
proof -
  from assms(1,2) obtain segs where "rmatch r None s = Some segs"
    by (auto simp: js_match_def)
  from rmatch_sound [OF this] assms(3,4) obtain rest where
    c: "list_all2 conforms (r0 @ tail) segs" and s: "s = concat segs @ rest" "rest = []"
    by auto
  from c obtain a st where "segs = a @ st" "list_all2 conforms tail st"
    by (auto simp: list_all2_append1)
  with s show ?thesis by auto
qed

lemma spaces_last: "list_all is_space sp \<Longrightarrow> sp \<noteq> [] \<Longrightarrow> is_space (last sp)"
  by (simp add: list_all_iff)

lemma digits_last: "list_all is_digit d \<Longrightarrow> d \<noteq> [] \<Longrightarrow> is_digit (last d)"
  by (simp add: list_all_iff)

lemma rule_to_start_None: "last line \<noteq> 58 \<Longrightarrow> rule_to_start line s = None"
proof (cases "js_match line rx_to_start")
  case None
  then show ?thesis by (simp add: rule_to_start_def)
next
  case (Some m)
  assume l: "last line \<noteq> 58"
  from js_match_tail [OF Some, of _ "butlast (butlast rx_to_start)" "[Str (js '':''), Eol]"]
  obtain s0 st where "line = s0 @ concat st" "list_all2 conforms [Str (js '':''), Eol] st"
    by (auto simp: rx_to_start_def)
  then have "last line = 58" by (auto simp: list_all2_Cons1 js_def)
  with l show ?thesis by simp
qed

lemma colon_tail:
  assumes "js_match line r = Some m" "r = Bol # r1" "r = r0 @ [Str (js '':''), Star Sp, Eol]"
  shows "last line = 58 \<or> is_space (last line)"
proof -
  from js_match_tail [OF assms(1,2,3)]
  obtain s0 st where "line = s0 @ concat st" "list_all2 conforms [Str (js '':''), Star Sp, Eol] st"
    by auto
  then obtain sp where "line = s0 @ js '':'' @ sp" "list_all is_space sp"
    by (auto simp: list_all2_Cons1)
  then show ?thesis
    by (cases "sp = []") (auto simp: js_def spaces_last)
qed

lemma rule_to_def_None: "last line \<noteq> 58 \<Longrightarrow> \<not> is_space (last line) \<Longrightarrow> rule_to_def line s = None"
proof (cases "js_match line rx_to_def")
  case None
  then show ?thesis by (simp add: rule_to_def_def)
next
  case (Some m)
  assume "last line \<noteq> 58" "\<not> is_space (last line)"
  with colon_tail [OF Some, of _ "butlast (butlast (butlast rx_to_def))"]
  show ?thesis by (simp add: rx_to_def_def)
qed

lemma rule_struct_None: "last line \<noteq> 58 \<Longrightarrow> \<not> is_space (last line) \<Longrightarrow> rule_struct line s = None"
proof (cases "js_match line rx_struct")
  case None
  then show ?thesis by (simp add: rule_struct_def)
next
  case (Some m)
  assume "last line \<noteq> 58" "\<not> is_space (last line)"
  with colon_tail [OF Some, of _ "butlast (butlast (butlast rx_struct))"]
  show ?thesis by (simp add: rx_struct_def)
qed

lemma rule_method_None: "last line \<noteq> 58 \<Longrightarrow> \<not> is_space (last line) \<Longrightarrow> rule_method line s = None"
proof (cases "js_match line rx_method")
  case None
  then show ?thesis by (simp add: rule_method_def)
next
  case (Some m)
  assume "last line \<noteq> 58" "\<not> is_space (last line)"
  with colon_tail [OF Some, of _ "butlast (butlast (butlast rx_method))"]
  show ?thesis by (simp add: rx_method_def)
qed

lemma quote_tail:
  assumes "js_match line r = Some m" "r = Bol # r1" "r = r0 @ [Str [k], Eol]"
  shows "last line = k"
proof -
  from js_match_tail [OF assms(1,2,3)]
  obtain s0 st where "line = s0 @ concat st" "list_all2 conforms [Str [k], Eol] st"
    by auto
  then show ?thesis by (auto simp: list_all2_Cons1)
qed

lemma rule_is_dq_None: "last line \<noteq> 34 \<Longrightarrow> rule_is_dq pad line = None"
proof (cases "js_match line rx_is_dq")
  case None
  then show ?thesis by (simp add: rule_is_dq_def)
next
  case (Some m)
  assume "last line \<noteq> 34"
  with quote_tail [OF Some, of _ "butlast (butlast rx_is_dq)" 34]
  show ?thesis by (simp add: rx_is_dq_def js_def)
qed

lemma rule_is_sq_None: "last line \<noteq> 39 \<Longrightarrow> rule_is_sq pad line = None"
proof (cases "js_match line rx_is_sq")
  case None
  then show ?thesis by (simp add: rule_is_sq_def)
next
  case (Some m)
  assume "last line \<noteq> 39"
  with quote_tail [OF Some, of _ "butlast (butlast rx_is_sq)" 39]
  show ?thesis by (simp add: rx_is_sq_def js_def)
qed

lemma rule_is_list_None: "last line \<noteq> 93 \<Longrightarrow> rule_is_list pad line = None"
proof (cases "js_match line rx_is_list")
  case None
  then show ?thesis by (simp add: rule_is_list_def)
next
  case (Some m)
  assume "last line \<noteq> 93"
  with quote_tail [OF Some, of _ "butlast (butlast rx_is_list)" 93]
  show ?thesis by (simp add: rx_is_list_def js_def)
qed

lemma digit_tail:
  assumes "js_match line r = Some m" "r = Bol # r1" "r = r0 @ [Plus Dg, GClose, Eol]"
  shows "is_digit (last line)"
proof -
  from js_match_tail [OF assms(1,2,3)]
  obtain s0 st where "line = s0 @ concat st" "list_all2 conforms [Plus Dg, GClose, Eol] st"
    by auto
  then show ?thesis by (auto simp: list_all2_Cons1 digits_last)
qed

lemma rule_is_double_None: "\<not> is_digit (last line) \<Longrightarrow> rule_is_double pad line = None"
proof (cases "js_match line rx_is_double")
  case None
  then show ?thesis by (simp add: rule_is_double_def)
next
  case (Some m)
  assume "\<not> is_digit (last line)"
  with digit_tail [OF Some, of _ "butlast (butlast (butlast rx_is_double))"]
  show ?thesis by (simp add: rx_is_double_def)
qed

lemma rule_is_int_None: "\<not> is_digit (last line) \<Longrightarrow> rule_is_int pad line = None"
proof (cases "js_match line rx_is_int")
  case None
  then show ?thesis by (simp add: rule_is_int_def)
next
  case (Some m)
  assume "\<not> is_digit (last line)"
  with digit_tail [OF Some, of _ "butlast (butlast (butlast rx_is_int))"]
  show ?thesis by (simp add: rx_is_int_def)
qed

lemma rule_is_double_no_dot: "46 \<notin> set line \<Longrightarrow> rule_is_double pad line = None"
proof (cases "js_match line rx_is_double")
  case None
  then show ?thesis by (simp add: rule_is_double_def)
next
  case (Some m)
  assume l: "46 \<notin> set line"
  from js_match_tail [OF Some, of _ "take 9 rx_is_double" "[Str (js ''.''), Plus Dg, GClose, Eol]"]
  obtain s0 st where "line = s0 @ concat st" "list_all2 conforms [Str (js ''.''), Plus Dg, GClose, Eol] st"
    by (auto simp: rx_is_double_def)
  then have "46 \<in> set line" by (auto simp: list_all2_Cons1 js_def)
  with l show ?thesis by simp
qed

lemma rule_is_bool_None: "last line \<noteq> 115 \<Longrightarrow> last line \<noteq> 111 \<Longrightarrow> rule_is_bool pad line = None"
proof (cases "js_match line rx_is_bool")
  case None
  then show ?thesis by (simp add: rule_is_bool_def)
next
  case (Some m)
  assume l: "last line \<noteq> 115" "last line \<noteq> 111"
  from js_match_tail [OF Some, of _ "butlast (butlast (butlast rx_is_bool))"
      "[Alt (js ''yes'') (js ''no''), GClose, Eol]"]
  obtain s0 st where "line = s0 @ concat st"
    "list_all2 conforms [Alt (js ''yes'') (js ''no''), GClose, Eol] st"
    by (auto simp: rx_is_bool_def)
  then have "last line = 115 \<or> last line = 111" by (auto simp: list_all2_Cons1 js_def)
  with l show ?thesis by simp
qed

section \<open>Greedy quantifiers\<close>

text \<open>
  A greedy quantifier that takes a whole run and is followed by a match of the rest gives
  the first match. When the quantifier can also take the text \<open>v\<close> behind the run,
  it gives characters back until the rest matches; if the rest matches at no proper
  suffix of \<open>v\<close>, the first match is the one that leaves \<open>v\<close>.
\<close>

lemma star_greedy:
  assumes "list_all (in_cls c) u" "v = [] \<or> \<not> in_cls c (hd v)"
      and "rmatch r (after p u) v = Some segs"
  shows "rmatch (Star c # r) p (u @ v) = Some (u # segs)"
  using assms(1,3)
proof (induction u arbitrary: p)
  case Nil
  then show ?case using assms(2) by (cases v) (simp_all add: skip_def after_def)
next
  case (Cons a u)
  have "after (Some a) u = after p (a # u)" by (simp add: after_def)
  with Cons show ?case by (simp add: cons_first_def)
qed

lemma plus_greedy:
  assumes "u \<noteq> []" "list_all (in_cls c) u" "v = [] \<or> \<not> in_cls c (hd v)"
      and "rmatch r (Some (last u)) v = Some segs"
  shows "rmatch (Plus c # r) p (u @ v) = Some (u # segs)"
proof -
  obtain a u' where u: "u = a # u'" using assms(1) by (cases u) auto
  have "after (Some a) u' = Some (last u)" by (simp add: after_def u)
  with assms u have "rmatch (Star c # r) (Some a) (u' @ v) = Some (u' # segs)"
    by (intro star_greedy) simp_all
  with assms(2) u show ?thesis by (simp add: cons_first_def)
qed

lemma star_fail:
  assumes "\<And>w q. w \<in> set (s # shorter s) \<Longrightarrow> rmatch r q w = None"
  shows "rmatch (Star c # r) p s = None"
  using assms
proof (induction s arbitrary: p)
  case Nil
  then show ?case by (simp add: skip_def)
next
  case (Cons x xs)
  then have "rmatch (Star c # r) (Some x) xs = None" "rmatch r p (x # xs) = None"
    by simp_all
  then show ?case by (simp add: cons_first_def skip_def)
qed

lemma star_backtrack:
  assumes "list_all (in_cls c) u"
      and "\<And>w q. w \<in> set (shorter v) \<Longrightarrow> rmatch r q w = None"
      and "rmatch r (after p u) v = Some segs"
  shows "rmatch (Star c # r) p (u @ v) = Some (u # segs)"
  using assms(1,3)
proof (induction u arbitrary: p)
  case Nil
  show ?case
  proof (cases v)
    case Nil
    with Nil.prems show ?thesis by (simp add: skip_def after_def)
  next
    case (Cons y ys)
    have "rmatch (Star c # r) (Some y) ys = None"
      using assms(2) Cons by (intro star_fail) simp
    with Nil.prems Cons show ?thesis by (simp add: skip_def after_def cons_first_def)
  qed
next
  case (Cons a u)
  have "after (Some a) u = after p (a # u)" by (simp add: after_def)
  with Cons show ?case by (simp add: cons_first_def)
qed

lemma plus_backtrack:
  assumes "u \<noteq> []" "list_all (in_cls c) u"
      and "\<And>w q. w \<in> set (shorter v) \<Longrightarrow> rmatch r q w = None"
      and "rmatch r (Some (last u)) v = Some segs"
  shows "rmatch (Plus c # r) p (u @ v) = Some (u # segs)"
proof -
  obtain a u' where u: "u = a # u'" using assms(1) by (cases u) auto
  have "after (Some a) u' = Some (last u)" by (simp add: after_def u)
  with assms u have "rmatch (Star c # r) (Some a) (u' @ v) = Some (u' # segs)"
    by (intro star_backtrack) simp_all
  with assms(2) u show ?thesis by (simp add: cons_first_def)
qed

lemma space_not_word: "is_space c \<Longrightarrow> \<not> is_word c"
  using word_not_space by blast

lemma spaces_hd: "spaces ws \<Longrightarrow> is_space (hd ws)"
  by (cases ws) (simp_all add: spaces_def)

lemma is_head:
  assumes "ident x" "spaces ws1" "spaces ws2" "R = [] \<or> \<not> is_space (hd R)"
      and "rmatch r (Some (last ws2)) R = Some segs"
  shows "rmatch (Bol # GOpen # Plus Wd # GClose # Plus Sp # Str (js ''is'') # Plus Sp # r) None
           (x @ ws1 @ js ''is'' @ ws2 @ R) =
         Some ([] # [] # x # [] # ws1 # js ''is'' # ws2 # segs)"
proof -
  have 1: "rmatch (Plus Sp # r) (Some 115) (ws2 @ R) = Some (ws2 # segs)"
    using assms(3,4,5) by (intro plus_greedy) (simp_all add: spaces_def)
  have 2: "rmatch (Str (js ''is'') # Plus Sp # r) (Some (last ws1)) (js ''is'' @ ws2 @ R) =
             Some (js ''is'' # ws2 # segs)"
    using 1 by (simp add: js_def after_def)
  have 3: "rmatch (Plus Sp # Str (js ''is'') # Plus Sp # r) (Some (last x)) (ws1 @ js ''is'' @ ws2 @ R) =
             Some (ws1 # js ''is'' # ws2 # segs)"
    using assms(2) 2 by (intro plus_greedy) (simp_all add: spaces_def js_def is_space_def)
  have 4: "rmatch (Plus Wd # GClose # Plus Sp # Str (js ''is'') # Plus Sp # r) None
             (x @ ws1 @ js ''is'' @ ws2 @ R) = Some (x # [] # ws1 # js ''is'' # ws2 # segs)"
    using assms(1,2) 3 spaces_hd [OF assms(2)]
    by (intro plus_greedy) (auto simp: ident_def spaces_def skip_def space_not_word)
  then show ?thesis by (simp add: skip_def)
qed

section \<open>Literal bindings\<close>

lemma digit_facts:
  assumes "is_digit c"
  shows "\<not> is_space c" "\<not> is_line_terminator c" "c \<noteq> 58" "c \<noteq> 46" "c \<noteq> 45" "is_word c"
  using assms by (auto simp: char_defs)

lemma word_no_dot: "is_word c \<Longrightarrow> c \<noteq> 46"
  by (auto simp: char_defs)

lemma space_no_dot: "is_space c \<Longrightarrow> c \<noteq> 46"
  by (auto simp: char_defs)

lemma digits_one_line: "list_all is_digit d \<Longrightarrow> one_line d"
  by (auto simp: one_line_def list_all_iff digit_facts)

lemma one_line_append [simp]: "one_line (a @ b) \<longleftrightarrow> one_line a \<and> one_line b"
  by (simp add: one_line_def)

lemma one_line_Cons [simp]: "one_line (c # a) \<longleftrightarrow> \<not> is_line_terminator c \<and> one_line a"
  by (simp add: one_line_def)

lemma one_line_Nil [simp]: "one_line []"
  by (simp add: one_line_def)

lemma written_props:
  assumes "well_formed l"
  shows "written l \<noteq> []" "one_line (written l)" "\<not> is_space (hd (written l))"
        "last (written l) \<noteq> 58" "\<not> is_space (last (written l))"
proof -
  show "written l \<noteq> []" using assms by (cases l) (auto simp: js_def digits_def)
  show "one_line (written l)"
    using assms by (cases l) (auto simp: js_def digits_def digits_one_line is_line_terminator_def)
  show "\<not> is_space (hd (written l))"
    using assms
    by (cases l) (auto simp: js_def digits_def is_space_def hd_append list_all_iff dest!: hd_in_set digit_facts(1))
  show "last (written l) \<noteq> 58"
    using assms by (cases l) (auto simp: js_def digits_def dest!: digits_last digit_facts(3))
  show "\<not> is_space (last (written l))"
    using assms by (cases l) (auto simp: js_def digits_def is_space_def dest!: digits_last digit_facts(1))
qed

lemma rule_field_is_line:
  assumes "ident x" "spaces ws1"
  shows "rule_field (x @ ws1 @ js ''is'' @ rest) s = None"
proof -
  have rej: "\<And>q y ys. in_cls Sp y \<Longrightarrow>
      rmatch (Str (js ''as'') # Plus Sp # GOpen # Plus Wd # GClose # [Eol]) q (y # ys) = None"
    by (auto simp: js_def is_space_def)
  have "rmatch (Plus Sp # Str (js ''as'') # Plus Sp # GOpen # Plus Wd # GClose # [Eol]) (Some (last x))
          (ws1 @ js ''is'' @ rest) = None"
    using assms(2)
    by (subst rmatch_plus_run [OF _ _ _ rej]) (simp_all add: spaces_def js_def is_space_def)
  moreover have "ws1 @ js ''is'' @ rest = [] \<or> \<not> is_word (hd (ws1 @ js ''is'' @ rest))"
    using spaces_hd [OF assms(2)] assms(2) by (simp add: spaces_def space_not_word)
  ultimately show ?thesis
    using assms(1) by (simp add: rule_field_def js_match_def rx_field_def skip_def)
qed

lemma say_print_None:
  assumes "ident x" "x \<noteq> js ''say''" "x \<noteq> js ''print''" "spaces ws1"
  shows "rule_say_dq pad (x @ ws1 @ rest) = None" "rule_say_sq pad (x @ ws1 @ rest) = None"
        "rule_say pad (x @ ws1 @ rest) = None" "rule_print_dq pad (x @ ws1 @ rest) = None"
        "rule_print pad (x @ ws1 @ rest) = None"
proof -
  have r: "ws1 @ rest = [] \<or> \<not> is_word (hd (ws1 @ rest))"
    using spaces_hd [OF assms(4)] assms(4) by (simp add: spaces_def space_not_word)
  have w: "list_all is_word (js ''say'')" "list_all is_word (js ''print'')"
    by (simp_all add: char_defs)
  note k = rmatch_keyword_ident [OF assms(1) r w(1) assms(2)] rmatch_keyword_ident [OF assms(1) r w(2) assms(3)]
  show "rule_say_dq pad (x @ ws1 @ rest) = None" "rule_say_sq pad (x @ ws1 @ rest) = None"
        "rule_say pad (x @ ws1 @ rest) = None" "rule_print_dq pad (x @ ws1 @ rest) = None"
        "rule_print pad (x @ ws1 @ rest) = None"
    by (simp_all add: rule_say_dq_def rule_say_sq_def rule_say_def rule_print_dq_def rule_print_def
          rx_say_dq_def rx_say_sq_def rx_say_def rx_print_dq_def rx_print_def js_match_def skip_def k)
qed

lemma is_line_last:
  "R \<noteq> [] \<Longrightarrow> last (x @ ws1 @ js ''is'' @ ws2 @ R) = last R"
  by simp

lemma headers_None:
  assumes "ident x" "spaces ws1" "R \<noteq> []" "last R \<noteq> 58" "\<not> is_space (last R)"
  shows "rule_to_start (x @ ws1 @ js ''is'' @ ws2 @ R) s = None"
        "rule_to_def (x @ ws1 @ js ''is'' @ ws2 @ R) s = None"
        "rule_struct (x @ ws1 @ js ''is'' @ ws2 @ R) s = None"
        "rule_field (x @ ws1 @ js ''is'' @ ws2 @ R) s = None"
        "rule_method (x @ ws1 @ js ''is'' @ ws2 @ R) s = None"
  using assms
  by (simp_all add: rule_to_start_None rule_to_def_None rule_struct_None rule_method_None
        rule_field_is_line)

lemma js_match_BolI:
  "rmatch (Bol # r) None s = Some segs \<Longrightarrow> js_match s (Bol # r) = Some (captures (Bol # r) segs None)"
  by (simp add: js_match_def)

lemma quoted_match:
  assumes "ident x" "spaces ws1" "spaces ws2" "one_line t" "\<not> is_space k" "\<not> is_line_terminator k"
  shows "js_match (x @ ws1 @ js ''is'' @ ws2 @ [k] @ t @ [k])
           [Bol, GOpen, Plus Wd, GClose, Plus Sp, Str (js ''is''), Plus Sp,
            Str [k], GOpen, Star Dot, GClose, Str [k], Eol] = Some [x, t]"
proof -
  have "rmatch [Star Dot, GClose, Str [k], Eol] (Some k) (t @ [k]) = Some [t, [], [k], []]"
    using assms(4) by (intro star_backtrack) (simp_all add: skip_def after_def)
  then have "rmatch [Str [k], GOpen, Star Dot, GClose, Str [k], Eol] (Some (last ws2)) ([k] @ t @ [k]) =
               Some [[k], [], t, [], [k], []]"
    by (simp add: skip_def after_def)
  from js_match_BolI [OF is_head [OF assms(1-3) _ this]] assms(5)
  show ?thesis by simp
qed

lemma double_match:
  assumes "ident x" "spaces ws1" "spaces ws2" "digits a" "digits b"
  shows "js_match (x @ ws1 @ js ''is'' @ ws2 @ a @ js ''.'' @ b) rx_is_double = Some [x, a @ js ''.'' @ b]"
proof -
  have 1: "rmatch [Plus Dg, GClose, Eol] (Some 46) (b @ []) = Some [b, [], []]"
    using assms(5) by (intro plus_greedy) (simp_all add: digits_def skip_def)
  have 2: "rmatch [Plus Dg, Str (js ''.''), Plus Dg, GClose, Eol] (Some (last ws2)) (a @ js ''.'' @ b) =
             Some [a, js ''.'', b, [], []]"
    using assms(4) 1
    by (intro plus_greedy) (simp_all add: digits_def js_def is_digit_def after_def)
  then have "rmatch [GOpen, Plus Dg, Str (js ''.''), Plus Dg, GClose, Eol] (Some (last ws2))
               (a @ js ''.'' @ b) = Some [[], a, js ''.'', b, [], []]"
    by (simp add: skip_def)
  from js_match_BolI [OF is_head [OF assms(1-3) _ this]] assms(4)
  show ?thesis
    by (cases a) (simp_all add: rx_is_double_def digits_def digit_facts)
qed

lemma int_match:
  assumes "ident x" "spaces ws1" "spaces ws2" "digits d"
  shows "js_match (x @ ws1 @ js ''is'' @ ws2 @ (if negative then js ''-'' else []) @ d) rx_is_int =
           Some [x, (if negative then js ''-'' else []) @ d]"
proof -
  obtain c d' where d: "d = c # d'" "is_digit c" using assms(4) by (cases d) (auto simp: digits_def)
  have 1: "rmatch [Plus Dg, GClose, Eol] q (d @ []) = Some [d, [], []]" for q
    using assms(4) by (intro plus_greedy) (simp_all add: digits_def skip_def)
  have 2: "rmatch [GOpen, Opt (Ch 45), Plus Dg, GClose, Eol] (Some (last ws2))
             ((if negative then js ''-'' else []) @ d) =
           Some [[], (if negative then js ''-'' else []), d, [], []]"
  proof (cases negative)
    case True
    with 1 [of "Some 45"] show ?thesis by (simp add: js_def skip_def cons_first_def)
  next
    case False
    with 1 [of "Some (last ws2)"] d digit_facts(5) [OF d(2)] show ?thesis by (simp add: skip_def)
  qed
  have "(if negative then js ''-'' else []) @ d = [] \<or>
        \<not> is_space (hd ((if negative then js ''-'' else []) @ d))"
    using d digit_facts(1) [OF d(2)] by (simp add: js_def is_space_def)
  from js_match_BolI [OF is_head [OF assms(1-3) this 2]]
  show ?thesis
    by (simp add: rx_is_int_def)
qed

lemma bool_match:
  assumes "ident x" "spaces ws1" "spaces ws2"
  shows "js_match (x @ ws1 @ js ''is'' @ ws2 @ (if b then js ''yes'' else js ''no'')) rx_is_bool =
           Some [x, (if b then js ''yes'' else js ''no'')]"
proof -
  have "rmatch [GOpen, Alt (js ''yes'') (js ''no''), GClose, Eol] (Some (last ws2))
          (if b then js ''yes'' else js ''no'') =
        Some [[], (if b then js ''yes'' else js ''no''), [], []]"
    by (simp add: js_def skip_def after_def)
  from js_match_BolI [OF is_head [OF assms(1-3) _ this]]
  show ?thesis
    by (simp add: rx_is_bool_def js_def is_space_def)
qed

lemma list_match:
  assumes "ident x" "spaces ws1" "spaces ws2" "t \<noteq> []" "one_line t"
  shows "js_match (x @ ws1 @ js ''is'' @ ws2 @ js ''['' @ t @ js '']'') rx_is_list = Some [x, t]"
proof -
  have "rmatch [Plus Dot, GClose, Str (js '']''), Eol] (Some 91) (t @ js '']'') =
          Some [t, [], js '']'', []]"
    using assms(4,5) by (intro plus_backtrack) (simp_all add: js_def skip_def after_def)
  then have "rmatch [Str (js ''[''), GOpen, Plus Dot, GClose, Str (js '']''), Eol] (Some (last ws2))
               (js ''['' @ t @ js '']'') = Some [js ''['', [], t, [], js '']'', []]"
    by (simp add: js_def skip_def after_def)
  from js_match_BolI [OF is_head [OF assms(1-3) _ this]]
  show ?thesis
    by (simp add: rx_is_list_def js_def is_space_def)
qed

lemma mutable_match:
  assumes "ident x" "spaces ws1" "spaces ws2" "R \<noteq> []" "one_line R" "\<not> is_space (hd R)"
  shows "js_match (x @ ws1 @ js ''is'' @ ws2 @ R @ js '', can change'') rx_is_mutable = Some [x, R]"
proof -
  have "rmatch [Plus Dot, GClose, Str (js '',''), Star Sp, Str (js ''can''), Plus Sp, Str (js ''change''), Eol]
          (Some (last ws2)) (R @ js '', can change'') =
        Some [R, [], js '','', js '' '', js ''can'', js '' '', js ''change'', []]"
    using assms(4,5)
    by (intro plus_backtrack) (auto simp: js_def skip_def after_def cons_first_def is_space_def)
  then have "rmatch [GOpen, Plus Dot, GClose, Str (js '',''), Star Sp, Str (js ''can''), Plus Sp,
                     Str (js ''change''), Eol]
          (Some (last ws2)) (R @ js '', can change'') =
        Some [[], R, [], js '','', js '' '', js ''can'', js '' '', js ''change'', []]"
    by (simp add: skip_def)
  from js_match_BolI [OF is_head [OF assms(1-3) _ this]] assms(4,6)
  show ?thesis
    by (simp add: rx_is_mutable_def hd_append)
qed

lemma digit_not_mark:
  assumes "is_digit c"
  shows "c \<noteq> 34" "c \<noteq> 39" "c \<noteq> 93" "c \<noteq> 115" "c \<noteq> 111"
  using assms by (auto simp: char_defs)

lemma plain_statement:
  assumes "ident x" "x \<noteq> js ''say''" "x \<noteq> js ''print''" "spaces ws1" "spaces ws2" "well_formed l"
  shows "statement pad (x @ ws1 @ js ''is'' @ ws2 @ written l) = Some ([], pad @ binding x l)"
proof -
  define L where "L = x @ ws1 @ js ''is'' @ ws2 @ written l"
  note sp = say_print_None [OF assms(1-4), of pad "js ''is'' @ ws2 @ written l", folded L_def]
  have lastL: "last L = last (written l)"
    unfolding L_def using written_props(1) [OF assms(6)] by simp
  have "statement pad L = Some ([], pad @ binding x l)"
  proof (cases l)
    case (TextDQ t)
    have "js_match L rx_is_dq = Some [x, t]"
      using quoted_match [OF assms(1,4,5), of t 34] assms(6) TextDQ unfolding L_def
      by (simp add: rx_is_dq_def js_def is_space_def is_line_terminator_def)
    then have "rule_is_dq pad L = Some ([], pad @ binding x l)"
      by (simp add: rule_is_dq_def TextDQ)
    then show ?thesis
      unfolding statement_def statement_rules_def by (simp add: sp)
  next
    case (TextSQ t)
    have l: "last L = 39" by (simp add: lastL TextSQ)
    have "js_match L rx_is_sq = Some [x, t]"
      using quoted_match [OF assms(1,4,5), of t 39] assms(6) TextSQ unfolding L_def
      by (simp add: rx_is_sq_def js_def is_space_def is_line_terminator_def)
    then have "rule_is_sq pad L = Some ([], pad @ binding x l)"
      by (simp add: rule_is_sq_def TextSQ)
    moreover have "rule_is_dq pad L = None" by (simp add: rule_is_dq_None l)
    ultimately show ?thesis
      unfolding statement_def statement_rules_def by (simp add: sp)
  next
    case (Decimal a b)
    have l: "is_digit (last L)"
      using assms(6) by (simp add: lastL Decimal js_def digits_def digits_last)
    have "js_match L rx_is_double = Some [x, a @ js ''.'' @ b]"
      using double_match [OF assms(1,4,5), of a b] assms(6) Decimal unfolding L_def by simp
    then have "rule_is_double pad L = Some ([], pad @ binding x l)"
      by (simp add: rule_is_double_def Decimal)
    moreover have "rule_is_dq pad L = None" "rule_is_sq pad L = None"
      using digit_not_mark [OF l] by (simp_all add: rule_is_dq_None rule_is_sq_None)
    ultimately show ?thesis
      unfolding statement_def statement_rules_def by (simp add: sp)
  next
    case (Whole negative d)
    have l: "is_digit (last L)"
      using assms(6) by (simp add: lastL Whole digits_def digits_last)
    have nd: "46 \<notin> set L"
      using assms(1,4,5,6) unfolding L_def Whole
      by (auto simp: ident_def spaces_def digits_def list_all_iff js_def
               dest: word_no_dot space_no_dot digit_facts(4))
    have "js_match L rx_is_int = Some [x, (if negative then js ''-'' else []) @ d]"
      using int_match [OF assms(1,4,5), of d negative] assms(6) Whole unfolding L_def by simp
    then have "rule_is_int pad L = Some ([], pad @ binding x l)"
      by (simp add: rule_is_int_def Whole)
    moreover have "rule_is_dq pad L = None" "rule_is_sq pad L = None"
      using digit_not_mark [OF l] by (simp_all add: rule_is_dq_None rule_is_sq_None)
    moreover have "rule_is_double pad L = None" by (simp add: rule_is_double_no_dot nd)
    ultimately show ?thesis
      unfolding statement_def statement_rules_def by (simp add: sp)
  next
    case (Truth b)
    have l: "last L = (if b then 115 else 111)" by (simp add: lastL Truth js_def)
    have "js_match L rx_is_bool = Some [x, (if b then js ''yes'' else js ''no'')]"
      using bool_match [OF assms(1,4,5), of b] Truth unfolding L_def by simp
    then have "rule_is_bool pad L = Some ([], pad @ binding x l)"
      by (simp add: rule_is_bool_def Truth js_def)
    moreover have "rule_is_dq pad L = None" "rule_is_sq pad L = None"
      "rule_is_double pad L = None" "rule_is_int pad L = None"
      by (simp_all add: rule_is_dq_None rule_is_sq_None rule_is_double_None rule_is_int_None l
            is_digit_def)
    ultimately show ?thesis
      unfolding statement_def statement_rules_def by (simp add: sp)
  next
    case (Sequence t)
    have l: "last L = 93" by (simp add: lastL Sequence js_def)
    have "js_match L rx_is_list = Some [x, t]"
      using list_match [OF assms(1,4,5), of t] assms(6) Sequence unfolding L_def by simp
    then have "rule_is_list pad L = Some ([], pad @ binding x l)"
      by (simp add: rule_is_list_def Sequence)
    moreover have "rule_is_dq pad L = None" "rule_is_sq pad L = None"
      "rule_is_double pad L = None" "rule_is_int pad L = None" "rule_is_bool pad L = None"
      by (simp_all add: rule_is_dq_None rule_is_sq_None rule_is_double_None rule_is_int_None
            rule_is_bool_None l is_digit_def)
    ultimately show ?thesis
      unfolding statement_def statement_rules_def by (simp add: sp)
  qed
  then show ?thesis by (simp add: L_def)
qed

lemma mutable_statement:
  assumes "ident x" "x \<noteq> js ''say''" "x \<noteq> js ''print''" "spaces ws1" "spaces ws2" "well_formed l"
  shows "statement pad (x @ ws1 @ js ''is'' @ ws2 @ written l @ js '', can change'') =
           Some ([], pad @ mutable_binding x l)"
proof -
  define L where "L = x @ ws1 @ js ''is'' @ ws2 @ written l @ js '', can change''"
  note sp = say_print_None [OF assms(1-4), of pad "js ''is'' @ ws2 @ written l @ js '', can change''",
      folded L_def]
  have l: "last L = 101" unfolding L_def by (simp add: js_def)
  have "js_match L rx_is_mutable = Some [x, written l]"
    using mutable_match [OF assms(1,4,5) written_props(1,2,3) [OF assms(6)]] unfolding L_def by simp
  then have "rule_is_mutable pad L = Some ([], pad @ mutable_binding x l)"
    by (simp add: rule_is_mutable_def mutable_binding_def)
  moreover have "rule_is_dq pad L = None" "rule_is_sq pad L = None"
    "rule_is_double pad L = None" "rule_is_int pad L = None" "rule_is_bool pad L = None"
    "rule_is_list pad L = None"
    by (simp_all add: rule_is_dq_None rule_is_sq_None rule_is_double_None rule_is_int_None
          rule_is_bool_None rule_is_list_None l is_digit_def)
  ultimately have "statement pad L = Some ([], pad @ mutable_binding x l)"
    unfolding statement_def statement_rules_def by (simp add: sp)
  then show ?thesis by (simp add: L_def)
qed

text \<open>
  C3, as amended. For every identifier \<open>x\<close> other than \<^verbatim>\<open>say\<close> and
  \<^verbatim>\<open>print\<close>, every two separators and every literal of the listed shapes, in
  every state of the loop: a line whose trimmed text is \<open>x\<close>, \<^verbatim>\<open>is\<close> and the
  literal pushes the binding of the shape, a const std::string for a text between double
  quotes or apostrophes, a const double for digits, dot, digits, a const int for an
  optionally signed integer, const bool true and false for \<^verbatim>\<open>yes\<close> and
  \<^verbatim>\<open>no\<close>, a const std::vector<int> for a text between brackets; with
  \<^verbatim>\<open>, can change\<close> appended it pushes \<^verbatim>\<open>auto x = \<close> followed by the
  rewritten right-hand side.
\<close>

theorem literal_shapes_give_bindings:
  assumes "ident x" "x \<noteq> js ''say''" "x \<noteq> js ''print''" "spaces ws1" "spaces ws2" "well_formed l"
  shows "(trim raw = x @ ws1 @ js ''is'' @ ws2 @ written l \<longrightarrow>
            step s raw = emit (inFunction s) ([], js ''    '' @ binding x l) (pre_closed s raw)) \<and>
         (trim raw = x @ ws1 @ js ''is'' @ ws2 @ written l @ js '', can change'' \<longrightarrow>
            step s raw = emit (inFunction s) ([], js ''    '' @ mutable_binding x l) (pre_closed s raw))"
proof (intro conjI impI)
  assume t: "trim raw = x @ ws1 @ js ''is'' @ ws2 @ written l"
  note p = written_props [OF assms(6)]
  show "step s raw = emit (inFunction s) ([], js ''    '' @ binding x l) (pre_closed s raw)"
  proof (rule step_statement [OF t])
    show "x @ ws1 @ js ''is'' @ ws2 @ written l \<noteq> []" using assms(1) by simp
    show "\<not> startsWith (x @ ws1 @ js ''is'' @ ws2 @ written l) (js ''//'')"
      using assms(1) by (simp add: char_defs)
    show "\<not> startsWith (x @ ws1 @ js ''is'' @ ws2 @ written l) (js ''#'')"
      using assms(1) by (simp add: char_defs)
    show "statement (js ''    '') (x @ ws1 @ js ''is'' @ ws2 @ written l) =
            Some ([], js ''    '' @ binding x l)"
      using assms by (rule plain_statement)
  qed (rule headers_None [OF assms(1,4) p(1,4,5)])+
next
  assume t: "trim raw = x @ ws1 @ js ''is'' @ ws2 @ written l @ js '', can change''"
  have p: "written l @ js '', can change'' \<noteq> []" "last (written l @ js '', can change'') \<noteq> 58"
    "\<not> is_space (last (written l @ js '', can change''))"
    by (simp_all add: js_def is_space_def)
  show "step s raw = emit (inFunction s) ([], js ''    '' @ mutable_binding x l) (pre_closed s raw)"
  proof (rule step_statement [OF t])
    show "x @ ws1 @ js ''is'' @ ws2 @ written l @ js '', can change'' \<noteq> []" using assms(1) by simp
    show "\<not> startsWith (x @ ws1 @ js ''is'' @ ws2 @ written l @ js '', can change'') (js ''//'')"
      using assms(1) by (simp add: char_defs)
    show "\<not> startsWith (x @ ws1 @ js ''is'' @ ws2 @ written l @ js '', can change'') (js ''#'')"
      using assms(1) by (simp add: char_defs)
    show "statement (js ''    '') (x @ ws1 @ js ''is'' @ ws2 @ written l @ js '', can change'') =
            Some ([], js ''    '' @ mutable_binding x l)"
      using assms by (rule mutable_statement)
  qed (rule headers_None [OF assms(1,4) p])+
qed

lemma binding_example:
  "ident (js ''x'')" "js ''x'' \<noteq> js ''say''" "js ''x'' \<noteq> js ''print''"
  "spaces (js '' '')" "spaces (js '' '')"
  by (simp_all add: ident_def spaces_def char_defs)

lemma binding_example_literals:
  "well_formed (Whole True (js ''42''))" "well_formed (Decimal (js ''10'') (js ''25''))"
  by (simp_all add: digits_def char_defs)

lemma binding_example_lines:
  "trim (js ''x is -42'') = js ''x'' @ js '' '' @ js ''is'' @ js '' '' @ written (Whole True (js ''42''))"
  "trim (js ''x is 10.25, can change'') =
     js ''x'' @ js '' '' @ js ''is'' @ js '' '' @ written (Decimal (js ''10'') (js ''25'')) @ js '', can change''"
  by (simp_all add: trim_def trimStart_def trimEnd_def char_defs)

theorem literal_shapes_give_bindings_witness:
  "ident (js ''x'') \<and> js ''x'' \<noteq> js ''say'' \<and> js ''x'' \<noteq> js ''print'' \<and> spaces (js '' '') \<and>
   well_formed (Whole True (js ''42'')) \<and> well_formed (Decimal (js ''10'') (js ''25'')) \<and>
   trim (js ''x is -42'') = js ''x'' @ js '' '' @ js ''is'' @ js '' '' @ written (Whole True (js ''42'')) \<and>
   trim (js ''x is 10.25, can change'') =
     js ''x'' @ js '' '' @ js ''is'' @ js '' '' @ written (Decimal (js ''10'') (js ''25'')) @ js '', can change'' \<and>
   step initial (js ''x is -42'') =
     emit (inFunction initial) ([], js ''    '' @ binding (js ''x'') (Whole True (js ''42'')))
       (pre_closed initial (js ''x is -42'')) \<and>
   step initial (js ''x is 10.25, can change'') =
     emit (inFunction initial) ([], js ''    '' @ mutable_binding (js ''x'') (Decimal (js ''10'') (js ''25'')))
       (pre_closed initial (js ''x is 10.25, can change''))"
  using literal_shapes_give_bindings [OF binding_example binding_example_literals(1),
      of "js ''x is -42''" initial]
    literal_shapes_give_bindings [OF binding_example binding_example_literals(2),
      of "js ''x is 10.25, can change''" initial]
    binding_example binding_example_literals binding_example_lines
  by blast

text \<open>
  The two lines of the example as the translator writes them.
\<close>

lemma binding_example_output:
  "bodyLines (translate_state (js ''x is -42'')) = [js ''    const int x = -42;'']"
  "bodyLines (translate_state (js ''x is 10.25'')) = [js ''    const double x = 10.25;'']"
  "bodyLines (translate_state (js ''x is 10.25, can change'')) = [js ''    auto x = 10.25;'']"
  by (simp_all add: eval_defs)

text \<open>
  C3 as stated fails for the names \<^verbatim>\<open>say\<close> and \<^verbatim>\<open>print\<close>, whose rules
  stand before the binding rules: \<^verbatim>\<open>say is 3\<close> is an output statement.
\<close>

theorem literal_shapes_counterexample:
  "ident (js ''say'') \<and>
   bodyLines (translate_state (js ''say is 3'')) = [js ''    std::cout << == 3 << std::endl;''] \<and>
   bodyLines (translate_state (js ''say is 3'')) \<noteq> [js ''    const int say = 3;'']"
  by (simp add: ident_def eval_defs)
end
